theory Spec2Isabelle
  imports Main "HOL-Library.Word" "HOL-Library.Multiset" "HOL-Library.Sublist"
begin

section \<open>Types and constants of the headers\<close>

text \<open>
  The source includes \<^verbatim>\<open>HuffmanEncoding.h\<close>, which is not part of the source tree.
  An extended character is a C++ \<^verbatim>\<open>int\<close> that holds a byte value or one of two values
  outside the byte range. No arithmetic is done on extended characters, so they are
  modelled as \<open>int\<close>. Frequencies and weights are C++ \<^verbatim>\<open>int\<close>s that the source adds
  to: they are 32-bit words, read as two's complement, and additions wrap around.
\<close>

type_synonym ext_char = int
type_synonym cint = "32 word"

text \<open>
  Modelled from the spec: the constants \<^verbatim>\<open>PSEUDO_EOF\<close> and \<^verbatim>\<open>NOT_A_CHAR\<close> of the missing
  header. The spec places the sentinel numerically outside the byte range (0 to 256
  instead of 0 to 255); \<^verbatim>\<open>NOT_A_CHAR\<close> is the marker the source stores in a node that
  carries no symbol, a further value outside the byte range.
\<close>

definition PSEUDO_EOF :: ext_char where
  "PSEUDO_EOF = 256"

definition NOT_A_CHAR :: ext_char where
  "NOT_A_CHAR = 257"

text \<open>The value \<^verbatim>\<open>EOF\<close> of the C++ library, returned by a read at the end of input.\<close>

definition EOF :: int where
  "EOF = - 1"

text \<open>
  A \<^verbatim>\<open>Node*\<close> is either the null pointer or points to a node with the four fields of
  the struct. The source allocates every node afresh, so no two pointers alias.
\<close>

datatype node = NULL | Node (character: ext_char) (zero: node) (one: node) (weight: cint)

text \<open>
  The ways in which the source stops without returning: a call of the library's
  \<^verbatim>\<open>error\<close>, a dereference of the null pointer, and a failed extraction with
  \<^verbatim>\<open>>>\<close>, after which the source would go on with a variable that holds no defined value.
\<close>

datatype fault = ErrorCall string | NullDereference | ExtractionFailed

section \<open>Decimal text\<close>

function digits :: "nat \<Rightarrow> string" where
  "digits n = (if n < 10 then [char_of (48 + n)]
               else digits (n div 10) @ [char_of (48 + n mod 10)])"
  by pat_completeness auto
termination
  by (relation "measure id") auto

declare digits.simps [simp del]

text \<open>\<^verbatim>\<open>integerToString\<close> of strlib.h, and the text that \<^verbatim>\<open><<\<close> writes for an \<^verbatim>\<open>int\<close>.\<close>

definition integerToString :: "int \<Rightarrow> string" where
  "integerToString i = (if i < 0 then CHR ''-'' # digits (nat (- i)) else digits (nat i))"

definition isdigit :: "char \<Rightarrow> bool" where
  "isdigit c = (48 \<le> (of_char c :: nat) \<and> (of_char c :: nat) \<le> 57)"

definition isspace :: "char \<Rightarrow> bool" where
  "isspace c = ((of_char c :: nat) = 32 \<or> (9 \<le> (of_char c :: nat) \<and> (of_char c :: nat) \<le> 13))"

definition digits_value :: "string \<Rightarrow> int" where
  "digits_value ds = foldl (\<lambda>a c. a * 10 + (of_char c - 48)) 0 ds"

section \<open>Streams\<close>

text \<open>
  Modelled from the spec: the bit streams of the missing \<^verbatim>\<open>bstream.h\<close>. The spec treats
  them as an external collaborator that offers "write one bit" and "read one bit" besides
  the byte-oriented operations, and that may pad the last byte. An output stream is the
  text written with \<^verbatim>\<open><<\<close> followed by the bits written with \<^verbatim>\<open>writeBit\<close>; an input stream
  is the bytes still to be read with \<^verbatim>\<open>get\<close> and \<^verbatim>\<open>>>\<close>, followed by the bits still to be
  read with \<^verbatim>\<open>readBit\<close>. The source writes all its text before its first bit and reads
  all its text before its first bit. A read at the end of input returns \<^verbatim>\<open>EOF\<close>: the
  source tests the result of \<^verbatim>\<open>get\<close> against \<^verbatim>\<open>EOF\<close>, and \<^verbatim>\<open>readBit\<close> returns an \<^verbatim>\<open>int\<close>
  that is 0, 1 or, on an exhausted stream, \<^verbatim>\<open>EOF\<close>.
\<close>

record ibstream =
  ib_file :: string
  ib_rest :: string
  ib_bits :: "bool list"

record obstream =
  ob_text :: string
  ob_bits :: "bool list"

definition get :: "ibstream \<Rightarrow> int \<times> ibstream" where
  "get infile = (case ib_rest infile of
                   [] \<Rightarrow> (EOF, infile)
                 | c # cs \<Rightarrow> (of_char c, infile\<lparr>ib_rest := cs\<rparr>))"

definition rewind :: "ibstream \<Rightarrow> ibstream" where
  "rewind infile = infile\<lparr>ib_rest := ib_file infile\<rparr>"

definition readBit :: "ibstream \<Rightarrow> int \<times> ibstream" where
  "readBit infile = (case ib_bits infile of
                       [] \<Rightarrow> (EOF, infile)
                     | b # bs \<Rightarrow> (if b then 1 else 0, infile\<lparr>ib_bits := bs\<rparr>))"

text \<open>
  \<^verbatim>\<open>infile >> n\<close> for an \<^verbatim>\<open>int n\<close>: skip white space, read an optional sign and the
  digits that follow; the extraction fails when there is no digit or when the number
  does not fit an \<^verbatim>\<open>int\<close>.
\<close>

definition extract_int :: "ibstream \<Rightarrow> fault + (cint \<times> ibstream)" where
  "extract_int infile =
     (let s1 = dropWhile isspace (ib_rest infile);
          neg = (s1 \<noteq> [] \<and> hd s1 = CHR ''-'');
          s2 = (if s1 \<noteq> [] \<and> (hd s1 = CHR ''-'' \<or> hd s1 = CHR ''+'') then tl s1 else s1);
          ds = takeWhile isdigit s2;
          v = (if neg then - digits_value ds else digits_value ds)
      in if ds = [] \<or> v < - (2 ^ 31) \<or> 2 ^ 31 \<le> v then Inl ExtractionFailed
         else Inr (word_of_int v, infile\<lparr>ib_rest := dropWhile isdigit s2\<rparr>))"

definition put_char :: "obstream \<Rightarrow> char \<Rightarrow> obstream" where
  "put_char outfile c = outfile\<lparr>ob_text := ob_text outfile @ [c]\<rparr>"

definition put_int :: "obstream \<Rightarrow> int \<Rightarrow> obstream" where
  "put_int outfile i = outfile\<lparr>ob_text := ob_text outfile @ integerToString i\<rparr>"

definition writeBit :: "obstream \<Rightarrow> int \<Rightarrow> obstream" where
  "writeBit outfile b = outfile\<lparr>ob_bits := ob_bits outfile @ [b \<noteq> 0]\<rparr>"

text \<open>\<^verbatim>\<open>file.put(character)\<close> on a byte sink: the extended character is cut to a byte.\<close>

definition put :: "string \<Rightarrow> ext_char \<Rightarrow> string" where
  "put file c = file @ [char_of c]"

section \<open>Maps and priority queues of the library\<close>

text \<open>
  Modelled from the spec: the \<^verbatim>\<open>Map\<close> of the missing \<^verbatim>\<open>map.h\<close>, a finite mapping whose
  iteration order is fixed by the implementation. It is an association list kept in
  ascending key order, which is the order \<^verbatim>\<open>foreach\<close> visits the keys in.
\<close>

type_synonym 'v Map = "(ext_char \<times> 'v) list"

definition containsKey :: "'v Map \<Rightarrow> ext_char \<Rightarrow> bool" where
  "containsKey m k = (map_of m k \<noteq> None)"

fun map_put :: "ext_char \<Rightarrow> 'v \<Rightarrow> 'v Map \<Rightarrow> 'v Map" where
  "map_put k v [] = [(k, v)]"
| "map_put k v ((k', v') # m) =
     (if k < k' then (k, v) # (k', v') # m
      else if k = k' then (k, v) # m
      else (k', v') # map_put k v m)"

text \<open>\<^verbatim>\<open>m[k]\<close> read at a key: the stored value, or the default value of the type.\<close>

definition map_get :: "'v Map \<Rightarrow> ext_char \<Rightarrow> 'v \<Rightarrow> 'v" where
  "map_get m k dflt = (case map_of m k of None \<Rightarrow> dflt | Some v \<Rightarrow> v)"

definition map_size :: "'v Map \<Rightarrow> int" where
  "map_size m = int (length m)"

definition map_keys :: "'v Map \<Rightarrow> ext_char list" where
  "map_keys m = map fst m"

text \<open>
  Modelled from the spec: the \<^verbatim>\<open>PriorityQueue\<close> of the missing \<^verbatim>\<open>pqueue.h\<close>, a
  min-priority queue. The spec leaves the order among equal priorities to the queue and
  proposes stable insertion order; the queue is the list of its entries in dequeue order,
  and an entry is enqueued behind the entries of lower or equal priority.
\<close>

type_synonym PriorityQueue = "(node \<times> int) list"

fun enqueue :: "node \<Rightarrow> int \<Rightarrow> PriorityQueue \<Rightarrow> PriorityQueue" where
  "enqueue v p [] = [(v, p)]"
| "enqueue v p ((v', p') # q) =
     (if p < p' then (v, p) # (v', p') # q else (v', p') # enqueue v p q)"

definition dequeue :: "PriorityQueue \<Rightarrow> fault + (node \<times> PriorityQueue)" where
  "dequeue q = (case q of
                  [] \<Rightarrow> Inl (ErrorCall ''dequeue: Attempting to dequeue an empty queue'')
                | (v, p) # q' \<Rightarrow> Inr (v, q'))"

section \<open>The functions of HuffmanEncoding.cpp\<close>

subsection \<open>getFrequencyTable\<close>

function getFrequencyTable_loop :: "ibstream \<Rightarrow> cint Map \<Rightarrow> cint Map \<times> ibstream" where
  "getFrequencyTable_loop file freqTable =
     (case get file of (currChar, file') \<Rightarrow>
        if currChar = EOF then (freqTable, file')
        else if containsKey freqTable currChar
        then getFrequencyTable_loop file'
               (map_put currChar (map_get freqTable currChar 0 + 1) freqTable)
        else getFrequencyTable_loop file' (map_put currChar 1 freqTable))"
  by pat_completeness auto
termination
  by (relation "measure (\<lambda>(file, freqTable). length (ib_rest file))")
     (auto simp: get_def EOF_def split: list.splits)

declare getFrequencyTable_loop.simps [simp del]

definition getFrequencyTable :: "ibstream \<Rightarrow> cint Map \<times> ibstream" where
  "getFrequencyTable file =
     (case getFrequencyTable_loop file [] of (freqTable, file') \<Rightarrow>
        (map_put PSEUDO_EOF 1 freqTable, file'))"

subsection \<open>buildEncodingTree, enqueueNodes, mergeNodes\<close>

definition enqueueNodes :: "cint Map \<Rightarrow> PriorityQueue \<Rightarrow> PriorityQueue" where
  "enqueueNodes frequencies pQueue =
     foldl (\<lambda>q currChar.
              let node = Node currChar NULL NULL (map_get frequencies currChar 0)
              in enqueue node (sint (weight node)) q)
           pQueue (map_keys frequencies)"

function mergeNodes :: "PriorityQueue \<Rightarrow> fault + node" where
  "mergeNodes pQueue =
     (if length pQueue = 1
      then (case dequeue pQueue of Inl f \<Rightarrow> Inl f | Inr (result, q') \<Rightarrow> Inr result)
      else (case dequeue pQueue of
              Inl f \<Rightarrow> Inl f
            | Inr (z, q1) \<Rightarrow>
                (case dequeue q1 of
                   Inl f \<Rightarrow> Inl f
                 | Inr (on, q2) \<Rightarrow>
                     (case z of
                        NULL \<Rightarrow> Inl NullDereference
                      | Node cz zz oz wz \<Rightarrow>
                          (case on of
                             NULL \<Rightarrow> Inl NullDereference
                           | Node co zo oo wo \<Rightarrow>
                               mergeNodes (enqueue (Node NOT_A_CHAR z on (wz + wo))
                                                   (sint (wz + wo)) q2))))))"
  by pat_completeness auto
termination
proof -
  have len: "length (enqueue v p q) = Suc (length q)" for v p q
    by (induction q) auto
  show ?thesis
    by (relation "measure length") (auto simp: dequeue_def len split: list.splits)
qed

declare mergeNodes.simps [simp del]

definition buildEncodingTree :: "cint Map \<Rightarrow> fault + node" where
  "buildEncodingTree frequencies = mergeNodes (enqueueNodes frequencies [])"

subsection \<open>searchCodeInTree, isCorrectCode, searchCharacterInTree, writeBits\<close>

text \<open>
  Both walks follow a child pointer for every character of the code: the \<^verbatim>\<open>zero\<close> child
  for the character 0, the \<^verbatim>\<open>one\<close> child for any other character. Following a child of
  the null pointer, or reading its character at the end, is a null dereference.
\<close>

fun searchCodeInTree :: "node \<Rightarrow> string \<Rightarrow> fault + ext_char" where
  "searchCodeInTree NULL code = Inl NullDereference"
| "searchCodeInTree (Node c z on w) [] = Inr c"
| "searchCodeInTree (Node c z on w) (x # xs) =
     searchCodeInTree (if x = CHR ''0'' then z else on) xs"

fun isCorrectCode :: "node \<Rightarrow> string \<Rightarrow> ext_char \<Rightarrow> fault + bool" where
  "isCorrectCode NULL code ch = Inl NullDereference"
| "isCorrectCode (Node c z on w) [] ch = Inr (c = ch)"
| "isCorrectCode (Node c z on w) (x # xs) ch =
     isCorrectCode (if x = CHR ''0'' then z else on) xs ch"

fun searchCharacterInTree :: "node \<Rightarrow> ext_char \<Rightarrow> fault + string" where
  "searchCharacterInTree NULL ch = Inl NullDereference"
| "searchCharacterInTree (Node c z on w) ch =
     (if c \<noteq> NOT_A_CHAR then Inr []
      else (case searchCharacterInTree z ch of
              Inl f \<Rightarrow> Inl f
            | Inr r0 \<Rightarrow>
                (case isCorrectCode (Node c z on w) (CHR ''0'' # r0) ch of
                   Inl f \<Rightarrow> Inl f
                 | Inr True \<Rightarrow> Inr (CHR ''0'' # r0)
                 | Inr False \<Rightarrow>
                     (case searchCharacterInTree on ch of
                        Inl f \<Rightarrow> Inl f
                      | Inr r1 \<Rightarrow>
                          (case isCorrectCode (Node c z on w) (CHR ''1'' # r1) ch of
                             Inl f \<Rightarrow> Inl f
                           | Inr True \<Rightarrow> Inr (CHR ''1'' # r1)
                           | Inr False \<Rightarrow> Inr [])))))"

fun writeBits :: "obstream \<Rightarrow> string \<Rightarrow> obstream" where
  "writeBits outfile [] = outfile"
| "writeBits outfile (x # xs) = writeBits (writeBit outfile (if x = CHR ''0'' then 0 else 1)) xs"

subsection \<open>encodeFile\<close>

function encodeFile_loop ::
  "ibstream \<Rightarrow> node \<Rightarrow> obstream \<Rightarrow> string Map \<Rightarrow> fault + (ibstream \<times> obstream)" where
  "encodeFile_loop infile encodingTree outfile encodingMap =
     (case get infile of (currChar, infile') \<Rightarrow>
        if currChar = EOF then Inr (infile', outfile)
        else if containsKey encodingMap currChar
        then encodeFile_loop infile' encodingTree
               (writeBits outfile (map_get encodingMap currChar [])) encodingMap
        else (case searchCharacterInTree encodingTree currChar of
                Inl f \<Rightarrow> Inl f
              | Inr code \<Rightarrow>
                  encodeFile_loop infile' encodingTree (writeBits outfile code)
                    (map_put currChar code encodingMap)))"
  by pat_completeness auto
termination
  by (relation "measure (\<lambda>(infile, t, out, m). length (ib_rest infile))")
     (auto simp: get_def EOF_def split: list.splits)

declare encodeFile_loop.simps [simp del]

definition encodeFile :: "ibstream \<Rightarrow> node \<Rightarrow> obstream \<Rightarrow> fault + (ibstream \<times> obstream)" where
  "encodeFile infile encodingTree outfile =
     (case encodeFile_loop infile encodingTree outfile [] of
        Inl f \<Rightarrow> Inl f
      | Inr (infile', outfile') \<Rightarrow>
          (case searchCharacterInTree encodingTree PSEUDO_EOF of
             Inl f \<Rightarrow> Inl f
           | Inr code \<Rightarrow> Inr (infile', writeBits outfile' code)))"

subsection \<open>decodeFile\<close>

text \<open>
  The loop of \<^verbatim>\<open>decodeFile\<close> has no bound in the source: it ends when the code read so
  far leads to the \<^verbatim>\<open>PSEUDO_EOF\<close> leaf, or with a fault. The result \<open>None\<close> stands for
  a loop that never ends.
\<close>

partial_function (option) decodeFile_loop ::
  "ibstream \<Rightarrow> node \<Rightarrow> string \<Rightarrow> string \<Rightarrow> (fault + (ibstream \<times> string)) option" where
  "decodeFile_loop infile encodingTree file code =
     (case readBit infile of (b, infile') \<Rightarrow>
        (case searchCodeInTree encodingTree (code @ integerToString b) of
           Inl f \<Rightarrow> Some (Inl f)
         | Inr chr \<Rightarrow>
             if chr = PSEUDO_EOF then Some (Inr (infile', file))
             else if chr \<noteq> NOT_A_CHAR
             then decodeFile_loop infile' encodingTree (put file chr) []
             else decodeFile_loop infile' encodingTree file (code @ integerToString b)))"

declare decodeFile_loop.simps [code]

definition decodeFile :: "ibstream \<Rightarrow> node \<Rightarrow> string \<Rightarrow> (fault + (ibstream \<times> string)) option" where
  "decodeFile infile encodingTree file = decodeFile_loop infile encodingTree file []"

subsection \<open>writeFileHeader, readFileHeader\<close>

definition writeFileHeader :: "obstream \<Rightarrow> cint Map \<Rightarrow> fault option \<times> obstream" where
  "writeFileHeader outfile frequencies =
     (if \<not> containsKey frequencies PSEUDO_EOF
      then (Some (ErrorCall ''No PSEUDO_EOF defined.''), outfile)
      else (None,
            foldl (\<lambda>out ch.
                     if ch = PSEUDO_EOF then out
                     else put_char (put_int (put_char out (char_of ch))
                                            (sint (map_get frequencies ch 0)))
                                   CHR '' '')
                  (put_char (put_int outfile (map_size frequencies - 1)) CHR '' '')
                  (map_keys frequencies)))"

fun readFileHeader_loop :: "nat \<Rightarrow> ibstream \<Rightarrow> cint Map \<Rightarrow> fault + (cint Map \<times> ibstream)" where
  "readFileHeader_loop 0 infile result = Inr (result, infile)"
| "readFileHeader_loop (Suc n) infile result =
     (case get infile of (ch, infile1) \<Rightarrow>
        (case extract_int infile1 of
           Inl f \<Rightarrow> Inl f
         | Inr (frequency, infile2) \<Rightarrow>
             (case get infile2 of (sp, infile3) \<Rightarrow>
                readFileHeader_loop n infile3 (map_put ch frequency result))))"

definition readFileHeader :: "ibstream \<Rightarrow> fault + (cint Map \<times> ibstream)" where
  "readFileHeader infile =
     (case extract_int infile of
        Inl f \<Rightarrow> Inl f
      | Inr (numValues, infile1) \<Rightarrow>
          (case get infile1 of (sp, infile2) \<Rightarrow>
             (case readFileHeader_loop (nat (sint numValues)) infile2 [] of
                Inl f \<Rightarrow> Inl f
              | Inr (result, infile3) \<Rightarrow> Inr (map_put PSEUDO_EOF 1 result, infile3))))"

subsection \<open>compress, decompress\<close>

text \<open>
  \<^verbatim>\<open>freeTree\<close> releases the nodes of the tree and has no effect on the streams; the final
  call of it in both functions does not appear in the model.
\<close>

definition compress :: "ibstream \<Rightarrow> obstream \<Rightarrow> fault + (ibstream \<times> obstream)" where
  "compress infile outfile =
     (case getFrequencyTable infile of (frequencyTable, infile1) \<Rightarrow>
        (case writeFileHeader outfile frequencyTable of
           (Some f, outfile1) \<Rightarrow> Inl f
         | (None, outfile1) \<Rightarrow>
             (case buildEncodingTree frequencyTable of
                Inl f \<Rightarrow> Inl f
              | Inr rootEncodingTree \<Rightarrow>
                  encodeFile (rewind infile1) rootEncodingTree outfile1)))"

definition decompress :: "ibstream \<Rightarrow> string \<Rightarrow> (fault + (ibstream \<times> string)) option" where
  "decompress infile outfile =
     (case readFileHeader infile of
        Inl f \<Rightarrow> Some (Inl f)
      | Inr (frequencyTable, infile1) \<Rightarrow>
          (case buildEncodingTree frequencyTable of
             Inl f \<Rightarrow> Some (Inl f)
           | Inr rootEncodingTree \<Rightarrow> decodeFile infile1 rootEncodingTree outfile))"

text \<open>
  A file is opened for reading at its start. The compressed file is the text and the bits
  of the output stream; the library may pad the bits up to a byte boundary, so the reader
  sees the written bits followed by some padding.
\<close>

definition open_file :: "string \<Rightarrow> ibstream" where
  "open_file s = \<lparr>ib_file = s, ib_rest = s, ib_bits = []\<rparr>"

definition new_file :: obstream where
  "new_file = \<lparr>ob_text = [], ob_bits = []\<rparr>"

definition reopen :: "obstream \<Rightarrow> bool list \<Rightarrow> ibstream" where
  "reopen outfile padding =
     \<lparr>ib_file = ob_text outfile, ib_rest = ob_text outfile, ib_bits = ob_bits outfile @ padding\<rparr>"

section \<open>Notions used to state the properties\<close>

text \<open>A map of the library has each key once; the list holds the keys in ascending order.\<close>

definition wf_map :: "'v Map \<Rightarrow> bool" where
  "wf_map m = sorted_wrt (<) (map fst m)"

text \<open>
  A leaf is a node whose two child pointers are null. \<open>leaf_codes\<close> lists the leaves from
  left to right, each with the branch choices on the path from the root: the character 0
  for a \<^verbatim>\<open>zero\<close> branch, the character 1 for a \<^verbatim>\<open>one\<close> branch.
\<close>

fun leaf_codes :: "node \<Rightarrow> (ext_char \<times> string) list" where
  "leaf_codes NULL = []"
| "leaf_codes (Node c z on w) =
     (if z = NULL \<and> on = NULL then [(c, [])]
      else map (\<lambda>(a, p). (a, CHR ''0'' # p)) (leaf_codes z) @
           map (\<lambda>(a, p). (a, CHR ''1'' # p)) (leaf_codes on))"

definition leaves :: "node \<Rightarrow> ext_char list" where
  "leaves t = map fst (leaf_codes t)"

text \<open>The characters of all the leaves of the trees in a queue.\<close>

definition queue_leaves :: "PriorityQueue \<Rightarrow> ext_char list" where
  "queue_leaves q = concat (map (\<lambda>(n, p). leaves n) q)"

text \<open>
  The encoding trees of the data model: a leaf carries a symbol, that is, a character other
  than \<^verbatim>\<open>NOT_A_CHAR\<close>; any other node carries \<^verbatim>\<open>NOT_A_CHAR\<close> and has two children.
\<close>

fun encoding_tree :: "node \<Rightarrow> bool" where
  "encoding_tree NULL = False"
| "encoding_tree (Node c z on w) =
     (if z = NULL \<and> on = NULL then c \<noteq> NOT_A_CHAR
      else c = NOT_A_CHAR \<and> encoding_tree z \<and> encoding_tree on)"

text \<open>The node that a code leads to from a node, by the walk of \<^verbatim>\<open>searchCodeInTree\<close>.\<close>

fun walk :: "node \<Rightarrow> string \<Rightarrow> node" where
  "walk t [] = t"
| "walk NULL (x # xs) = NULL"
| "walk (Node c z on w) (x # xs) = walk (if x = CHR ''0'' then z else on) xs"

text \<open>The code that \<^verbatim>\<open>searchCharacterInTree\<close> returns for a character, when it returns.\<close>

definition code_of :: "node \<Rightarrow> ext_char \<Rightarrow> string" where
  "code_of t ch = (case searchCharacterInTree t ch of Inl f \<Rightarrow> [] | Inr code \<Rightarrow> code)"

text \<open>The bits that \<^verbatim>\<open>writeBits\<close> writes for a code.\<close>

definition code_bits :: "string \<Rightarrow> bool list" where
  "code_bits code = map (\<lambda>x. x \<noteq> CHR ''0'') code"

text \<open>
  The number of \<^verbatim>\<open>one\<close> branches from a node down to the leaf they end in, and the
  character of that leaf.
\<close>

fun one_depth :: "node \<Rightarrow> nat" where
  "one_depth NULL = 0"
| "one_depth (Node c z on w) = (if on = NULL then 0 else Suc (one_depth on))"

fun one_leaf :: "node \<Rightarrow> ext_char" where
  "one_leaf NULL = NOT_A_CHAR"
| "one_leaf (Node c z on w) = (if on = NULL then c else one_leaf on)"

text \<open>
  The reference decoder, written from the words of the spec: keep a cursor, at first at
  the root; for every bit read move the cursor to its \<^verbatim>\<open>zero\<close> or \<^verbatim>\<open>one\<close> child; when the
  cursor is at a leaf, stop if the leaf is the sentinel, otherwise write the byte of the
  leaf and put the cursor back to the root. It returns the bits left over and the bytes
  written, and \<open>None\<close> when it does not reach the sentinel.
\<close>

definition is_leaf :: "node \<Rightarrow> bool" where
  "is_leaf n = (case n of NULL \<Rightarrow> False | Node c z on w \<Rightarrow> z = NULL \<and> on = NULL)"

definition child :: "node \<Rightarrow> bool \<Rightarrow> node" where
  "child n b = (case n of NULL \<Rightarrow> NULL | Node c z on w \<Rightarrow> if b then on else z)"

fun reference_decode :: "node \<Rightarrow> node \<Rightarrow> bool list \<Rightarrow> string \<Rightarrow> (bool list \<times> string) option" where
  "reference_decode root cursor [] sink = None"
| "reference_decode root cursor (b # bs) sink =
     (let cursor' = child cursor b
      in if cursor' = NULL then None
         else if is_leaf cursor'
         then (if character cursor' = PSEUDO_EOF then Some (bs, sink)
               else reference_decode root root bs (sink @ [char_of (character cursor')]))
         else reference_decode root cursor' bs sink)"

text \<open>
  The header format, written from the words of the spec: the number of symbols other than
  the sentinel in decimal and one space; then for each of these symbols, in the
  iteration order of the map, one byte holding the symbol, its frequency in decimal and
  one space.
\<close>

definition header_entries :: "cint Map \<Rightarrow> (ext_char \<times> cint) list" where
  "header_entries m = filter (\<lambda>(k, v). k \<noteq> PSEUDO_EOF) m"

definition header_format :: "cint Map \<Rightarrow> string" where
  "header_format m =
     integerToString (int (length (header_entries m))) @ [CHR '' ''] @
     concat (map (\<lambda>(k, v). [char_of k] @ integerToString (sint v) @ [CHR '' ''])
                 (header_entries m))"

section \<open>Decimal text is read back\<close>

lemma of_char_digit: "d < 10 \<Longrightarrow> (of_char (char_of (48 + d :: nat)) :: nat) = 48 + d"
  by (simp add: of_char_of)

lemma digits_nonempty: "digits n \<noteq> []"
  by (subst digits.simps) simp

lemma digits_isdigit: "c \<in> set (digits n) \<Longrightarrow> isdigit c"
proof (induction n arbitrary: c rule: digits.induct)
  case (1 n)
  show ?case
  proof (cases "n < 10")
    case True
    with "1.prems" have "c = char_of (48 + n)"
      by (subst (asm) digits.simps) simp
    with True show ?thesis
      by (simp add: isdigit_def of_char_of)
  next
    case False
    with "1.prems" have "c \<in> set (digits (n div 10)) \<or> c = char_of (48 + n mod 10)"
      by (subst (asm) digits.simps) auto
    then show ?thesis
    proof
      assume "c \<in> set (digits (n div 10))"
      with False "1.IH" show ?thesis by blast
    next
      assume c: "c = char_of (48 + n mod 10)"
      have "n mod 10 < 10" by simp
      then have "(of_char c :: nat) = 48 + n mod 10"
        unfolding c by (rule of_char_digit)
      then show ?thesis
        by (simp add: isdigit_def)
    qed
  qed
qed

lemma digits_value_snoc: "digits_value (ds @ [c]) = digits_value ds * 10 + (of_char c - 48)"
  by (simp add: digits_value_def)

lemma of_char_int_digit: "d < 10 \<Longrightarrow> (of_char (char_of (48 + d :: nat)) :: int) = 48 + int d"
proof -
  assume d: "d < 10"
  have "(of_char (char_of (48 + d :: nat)) :: int) = int (of_char (char_of (48 + d :: nat)))"
    by (simp only: of_nat_of_char)
  also have "\<dots> = int (48 + d)"
    using d by (simp only: of_char_digit)
  finally show ?thesis by simp
qed

lemma digits_value_digits: "digits_value (digits n) = int n"
proof (induction n rule: digits.induct)
  case (1 n)
  show ?case
  proof (cases "n < 10")
    case True
    then have "digits n = [char_of (48 + n)]"
      by (subst digits.simps) simp
    with True show ?thesis
      by (simp add: digits_value_def of_char_int_digit)
  next
    case False
    then have eq: "digits n = digits (n div 10) @ [char_of (48 + n mod 10)]"
      by (subst digits.simps) simp
    have "n mod 10 < 10" by simp
    then have "(of_char (char_of (48 + n mod 10)) :: int) = 48 + int (n mod 10)"
      by (rule of_char_int_digit)
    with False "1.IH" show ?thesis
      unfolding eq digits_value_snoc by (simp add: zdiv_int zmod_int)
  qed
qed

lemma isdigit_not_space: "isdigit c \<Longrightarrow> \<not> isspace c"
  by (auto simp: isdigit_def isspace_def)

lemma isdigit_not_sign: "isdigit c \<Longrightarrow> c \<noteq> CHR ''-'' \<and> c \<noteq> CHR ''+''"
  by (auto simp: isdigit_def)

lemma not_isdigit_space: "\<not> isdigit CHR '' ''"
  by (simp add: isdigit_def)

lemma takeWhile_digits: "takeWhile isdigit (digits n @ CHR '' '' # r) = digits n"
  by (simp add: digits_isdigit not_isdigit_space)

lemma dropWhile_digits: "dropWhile isdigit (digits n @ CHR '' '' # r) = CHR '' '' # r"
  by (simp add: digits_isdigit not_isdigit_space)

lemma hd_digits_isdigit: "isdigit (hd (digits n))"
  using digits_nonempty [of n] digits_isdigit [of "hd (digits n)" n] by simp

lemma extract_int_text:
  assumes "ib_rest infile = integerToString (sint w) @ CHR '' '' # r"
  shows "extract_int infile = Inr (w, infile\<lparr>ib_rest := CHR '' '' # r\<rparr>)"
proof (cases "sint w < 0")
  case True
  define n where "n = nat (- sint w)"
  have rest: "ib_rest infile = CHR ''-'' # digits n @ CHR '' '' # r"
    using assms True by (simp add: integerToString_def n_def)
  have v: "- int n = sint w"
    using True by (simp add: n_def)
  have range: "\<not> - int n < - (2 ^ 31)" "\<not> 2 ^ 31 \<le> - int n"
    using sint_ge [of w] sint_lt [of w] unfolding v by simp_all
  have w: "word_of_int (- int n) = w"
    unfolding v by simp
  have sp: "\<not> isspace CHR ''-''"
    by (simp add: isspace_def)
  show ?thesis
    unfolding extract_int_def rest Let_def
    using range w sp
    by (simp add: takeWhile_digits dropWhile_digits digits_value_digits digits_nonempty)
next
  case False
  define n where "n = nat (sint w)"
  have rest: "ib_rest infile = digits n @ CHR '' '' # r"
    using assms False by (simp add: integerToString_def n_def)
  have v: "int n = sint w"
    using False by (simp add: n_def)
  have range: "\<not> int n < - (2 ^ 31)" "\<not> 2 ^ 31 \<le> int n"
    using sint_ge [of w] sint_lt [of w] unfolding v by simp_all
  have w: "word_of_int (int n) = w"
    unfolding v by simp
  obtain d ds where ds: "digits n = d # ds"
    using digits_nonempty [of n] by (cases "digits n") auto
  have d: "isdigit d"
    using hd_digits_isdigit [of n] ds by simp
  have s1: "dropWhile isspace (digits n @ CHR '' '' # r) = digits n @ CHR '' '' # r"
    using d by (simp add: ds isdigit_not_space)
  have hd1: "hd (digits n @ CHR '' '' # r) = d"
    by (simp add: ds)
  have ne: "digits n @ CHR '' '' # r \<noteq> []"
    by simp
  show ?thesis
    unfolding extract_int_def rest Let_def s1 hd1
    using range w isdigit_not_sign [OF d]
    by (simp add: takeWhile_digits dropWhile_digits digits_value_digits digits_nonempty)
qed

section \<open>The header writer without the sentinel\<close>

text \<open>
  Claim C6. When the frequency map has no entry for \<^verbatim>\<open>PSEUDO_EOF\<close>, \<^verbatim>\<open>writeFileHeader\<close>
  stops with the error call "No PSEUDO_EOF defined." before it writes anything: the
  output stream is the one it was given.
\<close>

theorem writeFileHeader_missing_sentinel:
  "\<not> containsKey frequencies PSEUDO_EOF \<Longrightarrow>
   writeFileHeader outfile frequencies = (Some (ErrorCall ''No PSEUDO_EOF defined.''), outfile)"
  by (simp add: writeFileHeader_def)

theorem writeFileHeader_missing_sentinel_witness:
  "\<not> containsKey [(97, 2 :: cint)] PSEUDO_EOF \<and>
   writeFileHeader \<lparr>ob_text = ''x'', ob_bits = [True]\<rparr> [(97, 2)] =
     (Some (ErrorCall ''No PSEUDO_EOF defined.''), \<lparr>ob_text = ''x'', ob_bits = [True]\<rparr>)"
proof -
  have h: "\<not> containsKey [(97, 2 :: cint)] PSEUDO_EOF"
    by (simp add: containsKey_def PSEUDO_EOF_def)
  show ?thesis
    using h writeFileHeader_missing_sentinel [OF h, of "\<lparr>ob_text = ''x'', ob_bits = [True]\<rparr>"]
    by simp
qed

section \<open>The empty input\<close>

lemma compress_empty:
  "compress (open_file []) new_file =
     Inr (\<lparr>ib_file = [], ib_rest = [], ib_bits = []\<rparr>, \<lparr>ob_text = ''0 '', ob_bits = []\<rparr>)"
  by code_simp

lemma tree_empty:
  "buildEncodingTree (fst (getFrequencyTable (open_file []))) = Inr (Node PSEUDO_EOF NULL NULL 1)"
  by code_simp

lemma readFileHeader_empty:
  "readFileHeader (reopen \<lparr>ob_text = ''0 '', ob_bits = []\<rparr> padding) =
     Inr ([(PSEUDO_EOF, 1)], \<lparr>ib_file = ''0 '', ib_rest = [], ib_bits = padding\<rparr>)"
  by (simp add: readFileHeader_def reopen_def extract_int_def isspace_def isdigit_def
      digits_value_def get_def Let_def)

lemma tree_sentinel_only: "buildEncodingTree [(PSEUDO_EOF, 1)] = Inr (Node PSEUDO_EOF NULL NULL 1)"
  by code_simp

lemma decodeFile_single_leaf:
  "decodeFile infile (Node c NULL NULL w) file = Some (Inl NullDereference)"
  unfolding decodeFile_def
  by (subst decodeFile_loop.simps, cases "ib_bits infile")
     (simp_all add: readBit_def EOF_def integerToString_def digits.simps)

lemma decompress_empty:
  "decompress (reopen \<lparr>ob_text = ''0 '', ob_bits = []\<rparr> padding) [] = Some (Inl NullDereference)"
  by (simp add: decompress_def readFileHeader_empty tree_sentinel_only decodeFile_single_leaf)

text \<open>
  Claim C3. Compressing the empty input writes the header "0 " and no bit at all, which is
  the code of \<^verbatim>\<open>PSEUDO_EOF\<close> in the tree of the empty input, the empty code of a tree that
  is one leaf. Decompressing that file does not return the empty output: whatever padding
  follows, \<^verbatim>\<open>decodeFile\<close> follows a child pointer of the single leaf and dereferences the
  null pointer.
\<close>

theorem empty_input_compress_decompress:
  "compress (open_file []) new_file =
     Inr (\<lparr>ib_file = [], ib_rest = [], ib_bits = []\<rparr>, \<lparr>ob_text = ''0 '', ob_bits = []\<rparr>) \<and>
   buildEncodingTree (fst (getFrequencyTable (open_file []))) = Inr (Node PSEUDO_EOF NULL NULL 1) \<and>
   searchCharacterInTree (Node PSEUDO_EOF NULL NULL 1) PSEUDO_EOF = Inr [] \<and>
   decompress (reopen \<lparr>ob_text = ''0 '', ob_bits = []\<rparr> padding) [] = Some (Inl NullDereference)"
  by (simp add: compress_empty tree_empty decompress_empty PSEUDO_EOF_def NOT_A_CHAR_def)

text \<open>
  Claim C1, at the empty byte sequence. \<^verbatim>\<open>compress\<close> returns a file, and \<^verbatim>\<open>decompress\<close> on
  that file, with any padding, ends in a null dereference instead of writing the empty
  sequence.
\<close>

theorem round_trip_fails_on_empty_input:
  "(case compress (open_file []) new_file of
      Inl f \<Rightarrow> False
    | Inr (infile, outfile) \<Rightarrow>
        decompress (reopen outfile padding) [] = Some (Inl NullDereference) \<and>
        decompress (reopen outfile padding) [] \<noteq>
          Some (Inr (\<lparr>ib_file = ob_text outfile, ib_rest = [], ib_bits = padding\<rparr>, [])))"
  by (simp add: compress_empty decompress_empty)

section \<open>Maps\<close>

lemma map_of_map_put: "map_of (map_put k v m) = (map_of m)(k \<mapsto> v)"
  by (induction m) (auto simp: fun_eq_iff)

lemma keys_map_put: "set (map fst (map_put k v m)) = insert k (set (map fst m))"
proof -
  have "set (map fst (map_put k v m)) = dom (map_of (map_put k v m))"
    by (simp add: dom_map_of_conv_image_fst)
  also have "\<dots> = insert k (dom (map_of m))"
    by (simp add: map_of_map_put)
  finally show ?thesis
    by (simp add: dom_map_of_conv_image_fst)
qed

lemma wf_map_put: "wf_map m \<Longrightarrow> wf_map (map_put k v m)"
proof (induction m)
  case Nil
  then show ?case by (simp add: wf_map_def)
next
  case (Cons a m)
  obtain k' v' where a: "a = (k', v')" by (cases a)
  from Cons.prems have wf: "wf_map m" and above: "\<forall>x\<in>set (map fst m). k' < x"
    by (simp_all add: wf_map_def a)
  have "wf_map (map_put k v m)" by (rule Cons.IH [OF wf])
  moreover have "k' < k \<Longrightarrow> \<forall>x\<in>set (map fst (map_put k v m)). k' < x"
    using above by (simp only: keys_map_put) simp
  ultimately show ?case
    using Cons.prems above by (auto simp: wf_map_def a)
qed

lemma wf_map_distinct: "wf_map m \<Longrightarrow> distinct (map fst m)"
  by (simp add: wf_map_def strict_sorted_iff)

lemma map_put_last: "\<forall>x\<in>set (map fst m). x < k \<Longrightarrow> map_put k v m = m @ [(k, v)]"
  by (induction m) auto

lemma map_get_entry: "distinct (map fst m) \<Longrightarrow> (k, v) \<in> set m \<Longrightarrow> map_get m k d = v"
  by (simp add: map_get_def)

lemma containsKey_keys: "containsKey m k \<longleftrightarrow> k \<in> set (map fst m)"
  by (simp add: containsKey_def map_of_eq_None_iff)

lemma map_keys_values:
  "distinct (map fst m) \<Longrightarrow> set es \<subseteq> set m \<Longrightarrow>
   map (\<lambda>k. f k (map_get m k d)) (map fst es) = map (\<lambda>(k, v). f k v) es"
  by (induction es) (auto simp: map_get_entry)

lemma length_without_key:
  "distinct (map fst m) \<Longrightarrow> k \<in> set (map fst m) \<Longrightarrow>
   Suc (length (filter (\<lambda>(k', v). k' \<noteq> k) m)) = length m"
proof (induction m)
  case Nil
  then show ?case by simp
next
  case (Cons a m)
  obtain k' v' where a: "a = (k', v')" by (cases a)
  show ?case
  proof (cases "k' = k")
    case True
    with Cons.prems have "k \<notin> set (map fst m)" by (simp add: a)
    then have "filter (\<lambda>(k', v). k' \<noteq> k) m = m"
      by (auto simp: filter_id_conv image_iff)
    with True show ?thesis by (simp add: a)
  next
    case False
    with Cons show ?thesis by (simp add: a)
  qed
qed

section \<open>The header that writeFileHeader writes\<close>

lemma header_loop_text:
  "foldl (\<lambda>out ch. if ch = PSEUDO_EOF then out
                    else put_char (put_int (put_char out (char_of ch)) (sint (map_get m ch 0))) CHR '' '')
         out ks =
   out\<lparr>ob_text := ob_text out @
          concat (map (\<lambda>k. [char_of k] @ integerToString (sint (map_get m k 0)) @ [CHR '' ''])
                      (filter (\<lambda>k. k \<noteq> PSEUDO_EOF) ks))\<rparr>"
  by (induction ks arbitrary: out) (simp_all add: put_char_def put_int_def)

lemma header_entries_keys:
  "filter (\<lambda>k. k \<noteq> PSEUDO_EOF) (map fst m) = map fst (header_entries m)"
  by (induction m) (auto simp: header_entries_def)

lemma header_entries_subset: "set (header_entries m) \<subseteq> set m"
  by (auto simp: header_entries_def)

lemma header_entries_length:
  "wf_map m \<Longrightarrow> containsKey m PSEUDO_EOF \<Longrightarrow> map_size m - 1 = int (length (header_entries m))"
  using length_without_key [of m PSEUDO_EOF]
  by (simp add: wf_map_distinct containsKey_keys header_entries_def map_size_def)

lemma writeFileHeader_text:
  assumes "wf_map m" and "containsKey m PSEUDO_EOF"
  shows "writeFileHeader outfile m = (None, outfile\<lparr>ob_text := ob_text outfile @ header_format m\<rparr>)"
proof -
  have eq: "map (\<lambda>k. [char_of k] @ integerToString (sint (map_get m k 0)) @ [CHR '' ''])
            (map fst (header_entries m)) =
        map (\<lambda>(k, v). [char_of k] @ integerToString (sint v) @ [CHR '' '']) (header_entries m)"
    using wf_map_distinct [OF assms(1)] header_entries_subset [of m]
    by (rule map_keys_values
        [where f = "\<lambda>k v. [char_of k] @ integerToString (sint v) @ [CHR '' '']"])
  show ?thesis
    using assms
    unfolding writeFileHeader_def header_loop_text map_keys_def header_entries_keys eq
      header_format_def
    by (simp add: header_entries_length put_char_def put_int_def)
qed

text \<open>
  Claim C7. For a frequency map that contains \<^verbatim>\<open>PSEUDO_EOF\<close>, \<^verbatim>\<open>writeFileHeader\<close> appends
  to the output exactly the header of the format: the number of symbols other than the
  sentinel in decimal, one space, and for each of them its byte, its frequency in decimal
  and one space; the sentinel is not among the entries written.
\<close>

theorem writeFileHeader_format:
  "wf_map m \<Longrightarrow> containsKey m PSEUDO_EOF \<Longrightarrow>
   writeFileHeader outfile m = (None, outfile\<lparr>ob_text := ob_text outfile @ header_format m\<rparr>) \<and>
   PSEUDO_EOF \<notin> fst ` set (header_entries m)"
  by (auto simp: writeFileHeader_text header_entries_def)

theorem writeFileHeader_format_witness:
  "wf_map [(97, 2), (98, 1), (PSEUDO_EOF, 1 :: cint)] \<and>
   containsKey [(97, 2), (98, 1), (PSEUDO_EOF, 1 :: cint)] PSEUDO_EOF \<and>
   writeFileHeader new_file [(97, 2), (98, 1), (PSEUDO_EOF, 1)] =
     (None, \<lparr>ob_text = ''2 a2 b1 '', ob_bits = []\<rparr>) \<and>
   header_format [(97, 2), (98, 1), (PSEUDO_EOF, 1)] = ''2 a2 b1 ''"
proof -
  have h1: "wf_map [(97, 2), (98, 1), (PSEUDO_EOF, 1 :: cint)]"
    by (simp add: wf_map_def PSEUDO_EOF_def)
  have h2: "containsKey [(97, 2), (98, 1), (PSEUDO_EOF, 1 :: cint)] PSEUDO_EOF"
    by (simp add: containsKey_def)
  have h3: "header_format [(97, 2), (98, 1), (PSEUDO_EOF, 1)] = ''2 a2 b1 ''"
    by code_simp
  show ?thesis
    using h1 h2 h3 writeFileHeader_format [OF h1 h2, of new_file]
    by (simp add: new_file_def)
qed

section \<open>The header is read back\<close>

lemma get_char: "ib_rest infile = c # cs \<Longrightarrow> get infile = (of_char c, infile\<lparr>ib_rest := cs\<rparr>)"
  by (simp add: get_def)

lemma of_char_of_byte: "0 \<le> k \<Longrightarrow> k \<le> 255 \<Longrightarrow> (of_char (char_of (k :: int)) :: int) = k"
  by (simp add: of_char_of)

lemma readFileHeader_loop_entries:
  assumes "\<forall>(k, v)\<in>set es. 0 \<le> k \<and> k \<le> 255"
    and "ib_rest infile =
         concat (map (\<lambda>(k, v). [char_of k] @ integerToString (sint v) @ [CHR '' '']) es) @ r"
  shows "readFileHeader_loop (length es) infile acc =
         Inr (foldl (\<lambda>a (k, v). map_put k v a) acc es, infile\<lparr>ib_rest := r\<rparr>)"
  using assms
proof (induction es arbitrary: infile acc)
  case Nil
  then have "infile\<lparr>ib_rest := r\<rparr> = infile" by simp
  then show ?case by simp
next
  case (Cons e es)
  obtain k v where e: "e = (k, v)" by (cases e)
  define tl_text where
    "tl_text = concat (map (\<lambda>(k, v). [char_of k] @ integerToString (sint v) @ [CHR '' '']) es) @ r"
  have rest: "ib_rest infile = char_of k # integerToString (sint v) @ CHR '' '' # tl_text"
    using Cons.prems(2) by (simp add: e tl_text_def)
  have k: "0 \<le> k" "k \<le> 255"
    using Cons.prems(1) by (simp_all add: e)
  define infile1 where "infile1 = infile\<lparr>ib_rest := integerToString (sint v) @ CHR '' '' # tl_text\<rparr>"
  have g1: "get infile = (k, infile1)"
    using get_char [OF rest] k by (simp add: of_char_of_byte infile1_def)
  have x: "extract_int infile1 = Inr (v, infile1\<lparr>ib_rest := CHR '' '' # tl_text\<rparr>)"
    by (rule extract_int_text) (simp add: infile1_def)
  have g2: "get (infile1\<lparr>ib_rest := CHR '' '' # tl_text\<rparr>) = (32, infile\<lparr>ib_rest := tl_text\<rparr>)"
    by (simp add: get_def infile1_def)
  have ih: "readFileHeader_loop (length es) (infile\<lparr>ib_rest := tl_text\<rparr>) (map_put k v acc) =
            Inr (foldl (\<lambda>a (k, v). map_put k v a) (map_put k v acc) es, infile\<lparr>ib_rest := r\<rparr>)"
    using Cons.IH [of "infile\<lparr>ib_rest := tl_text\<rparr>" "map_put k v acc"] Cons.prems(1)
    by (simp add: tl_text_def)
  show ?case
    by (simp add: e g1 x g2 ih)
qed

lemma foldl_map_put_sorted:
  "sorted_wrt (<) (map fst (acc @ es)) \<Longrightarrow> foldl (\<lambda>a (k, v). map_put k v a) acc es = acc @ es"
proof (induction es arbitrary: acc)
  case Nil
  then show ?case by simp
next
  case (Cons e es)
  obtain k v where e: "e = (k, v)" by (cases e)
  from Cons.prems have "\<forall>x\<in>set (map fst acc). x < k"
    by (auto simp: e sorted_wrt_append)
  then have put: "map_put k v acc = acc @ [(k, v)]"
    by (rule map_put_last)
  from Cons.prems have "sorted_wrt (<) (map fst ((acc @ [(k, v)]) @ es))"
    by (simp add: e)
  from Cons.IH [OF this] show ?case
    by (simp add: e put)
qed

lemma sentinel_is_last:
  assumes "wf_map m" and "\<forall>(k, v)\<in>set m. k \<le> PSEUDO_EOF" and "map_of m PSEUDO_EOF = Some c"
  shows "m = header_entries m @ [(PSEUDO_EOF, c)]"
  using assms
proof (induction m)
  case Nil
  then show ?case by simp
next
  case (Cons e m)
  obtain k v where e: "e = (k, v)" by (cases e)
  show ?case
  proof (cases "k = PSEUDO_EOF")
    case True
    from Cons.prems(1) have "\<forall>x\<in>set m. k < fst x"
      by (simp add: wf_map_def e)
    moreover from Cons.prems(2) have "\<forall>x\<in>set m. fst x \<le> PSEUDO_EOF"
      by (auto simp: e)
    ultimately have "m = []"
      using True by (cases m) auto
    with True Cons.prems(3) show ?thesis
      by (simp add: e header_entries_def)
  next
    case False
    from Cons.prems have "m = header_entries m @ [(PSEUDO_EOF, c)]"
      using False by (intro Cons.IH) (auto simp: wf_map_def e)
    with False show ?thesis
      by (simp add: e header_entries_def)
  qed
qed

lemma bytes_length:
  assumes "distinct (ks :: int list)" and "\<forall>k\<in>set ks. 0 \<le> k \<and> k \<le> 255"
  shows "length ks \<le> 256"
proof -
  have "set ks \<subseteq> {0..255}"
    using assms(2) by auto
  then have "card (set ks) \<le> card {0..255::int}"
    by (intro card_mono) simp_all
  then show ?thesis
    using distinct_card [OF assms(1)] by simp
qed

lemma sint_small: "n \<le> 256 \<Longrightarrow> sint (word_of_int (int n) :: cint) = int n"
proof -
  assume "n \<le> 256"
  then have "- (2 ^ 31) \<le> int n" and "int n < 2 ^ 31"
    by simp_all
  then have "signed_take_bit 31 (int n) = int n"
    by (rule signed_take_bit_int_eq_self)
  moreover have "sint (word_of_int (int n) :: cint) = signed_take_bit (LENGTH(32) - 1) (int n)"
    by (rule sint_sbintrunc')
  ultimately show ?thesis
    by simp
qed

lemma readFileHeader_header_format:
  assumes wf: "wf_map m"
    and keys: "\<forall>(k, v)\<in>set m. k = PSEUDO_EOF \<or> (0 \<le> k \<and> k \<le> 255)"
    and sentinel: "map_of m PSEUDO_EOF = Some 1"
  shows "readFileHeader \<lparr>ib_file = f, ib_rest = header_format m, ib_bits = bs\<rparr> =
         Inr (m, \<lparr>ib_file = f, ib_rest = [], ib_bits = bs\<rparr>)"
proof -
  define es where "es = header_entries m"
  define body where
    "body = concat (map (\<lambda>(k, v). [char_of k] @ integerToString (sint v) @ [CHR '' '']) es)"
  have "\<forall>(k, v)\<in>set m. k \<le> PSEUDO_EOF"
    using keys by (auto simp: PSEUDO_EOF_def)
  then have m: "m = es @ [(PSEUDO_EOF, 1)]"
    unfolding es_def using wf sentinel by (intro sentinel_is_last) 
  have es_keys: "\<forall>(k, v)\<in>set es. 0 \<le> k \<and> k \<le> 255"
    using keys by (auto simp: es_def header_entries_def)
  have sorted: "sorted_wrt (<) (map fst es)"
    using wf unfolding wf_map_def by (subst (asm) m) (simp add: sorted_wrt_append)
  then have "distinct (map fst es)"
    by (simp add: strict_sorted_iff)
  moreover have "\<forall>k\<in>set (map fst es). 0 \<le> k \<and> k \<le> 255"
    using es_keys by auto
  ultimately have "length (map fst es) \<le> 256"
    by (rule bytes_length)
  then have len: "length es \<le> 256"
    by simp
  define w :: cint where "w = word_of_int (int (length es))"
  have w: "sint w = int (length es)"
    unfolding w_def using len by (rule sint_small)
  define infile where "infile = \<lparr>ib_file = f, ib_rest = header_format m, ib_bits = bs\<rparr>"
  have "ib_rest infile = integerToString (sint w) @ CHR '' '' # body"
    by (simp add: infile_def header_format_def w body_def es_def)
  then have x: "extract_int infile = Inr (w, infile\<lparr>ib_rest := CHR '' '' # body\<rparr>)"
    by (rule extract_int_text)
  have g: "get (infile\<lparr>ib_rest := CHR '' '' # body\<rparr>) = (32, infile\<lparr>ib_rest := body\<rparr>)"
    by (simp add: get_def)
  have "readFileHeader_loop (length es) (infile\<lparr>ib_rest := body\<rparr>) [] =
        Inr (foldl (\<lambda>a (k, v). map_put k v a) [] es, infile\<lparr>ib_rest := body\<rparr>\<lparr>ib_rest := []\<rparr>)"
    using es_keys by (rule readFileHeader_loop_entries) (simp add: body_def)
  moreover have "foldl (\<lambda>a (k, v). map_put k v a) [] es = es"
    using foldl_map_put_sorted [of "[]" es] sorted by simp
  ultimately have loop: "readFileHeader_loop (length es) (infile\<lparr>ib_rest := body\<rparr>) [] =
        Inr (es, infile\<lparr>ib_rest := []\<rparr>)"
    by simp
  have "\<forall>x\<in>set (map fst es). x < PSEUDO_EOF"
    using es_keys by (auto simp: PSEUDO_EOF_def)
  then have "map_put PSEUDO_EOF 1 es = m"
    by (subst m) (rule map_put_last)
  then show ?thesis
    unfolding infile_def [symmetric]
    by (simp add: readFileHeader_def x g w loop) (simp add: infile_def)
qed

text \<open>
  Claim C5. Let the frequency map have the bytes 0 to 255 as its keys other than the
  sentinel, and the count 1 for \<^verbatim>\<open>PSEUDO_EOF\<close>. Then \<^verbatim>\<open>readFileHeader\<close>, on the file that
  \<^verbatim>\<open>writeFileHeader\<close> wrote from the map, returns the map itself, with the read position
  behind the header. The counts of the bytes may be any \<^verbatim>\<open>int\<close>, positive or not.
\<close>

theorem header_round_trip:
  "wf_map m \<Longrightarrow>
   \<forall>(k, v)\<in>set m. k = PSEUDO_EOF \<or> (0 \<le> k \<and> k \<le> 255) \<Longrightarrow>
   map_of m PSEUDO_EOF = Some 1 \<Longrightarrow>
   (case writeFileHeader new_file m of
      (Some f, outfile) \<Rightarrow> False
    | (None, outfile) \<Rightarrow>
        readFileHeader (reopen outfile padding) =
          Inr (m, \<lparr>ib_file = ob_text outfile, ib_rest = [], ib_bits = padding\<rparr>))"
proof -
  assume wf: "wf_map m"
    and keys: "\<forall>(k, v)\<in>set m. k = PSEUDO_EOF \<or> (0 \<le> k \<and> k \<le> 255)"
    and sentinel: "map_of m PSEUDO_EOF = Some 1"
  have "containsKey m PSEUDO_EOF"
    using sentinel by (simp add: containsKey_def)
  then have "writeFileHeader new_file m = (None, \<lparr>ob_text = header_format m, ob_bits = []\<rparr>)"
    using wf by (simp add: writeFileHeader_text new_file_def)
  then show ?thesis
    using readFileHeader_header_format [OF wf keys sentinel, of "header_format m" padding]
    by (simp add: reopen_def)
qed

theorem header_round_trip_witness:
  "wf_map [(32, 7), (97, 2), (255, 1), (PSEUDO_EOF, 1 :: cint)] \<and>
   map_of [(32, 7), (97, 2), (255, 1), (PSEUDO_EOF, 1 :: cint)] PSEUDO_EOF = Some 1 \<and>
   (case writeFileHeader new_file [(32, 7), (97, 2), (255, 1), (PSEUDO_EOF, 1)] of
      (Some f, outfile) \<Rightarrow> False
    | (None, outfile) \<Rightarrow>
        readFileHeader (reopen outfile [True, False]) =
          Inr ([(32, 7), (97, 2), (255, 1), (PSEUDO_EOF, 1)],
               \<lparr>ib_file = ob_text outfile, ib_rest = [], ib_bits = [True, False]\<rparr>))"
proof -
  have h1: "wf_map [(32, 7), (97, 2), (255, 1), (PSEUDO_EOF, 1 :: cint)]"
    by (simp add: wf_map_def PSEUDO_EOF_def)
  have h2: "\<forall>(k, v)\<in>set [(32, 7), (97, 2), (255, 1), (PSEUDO_EOF, 1 :: cint)].
              k = PSEUDO_EOF \<or> (0 \<le> k \<and> k \<le> 255)"
    by (simp add: PSEUDO_EOF_def)
  have h3: "map_of [(32, 7), (97, 2), (255, 1), (PSEUDO_EOF, 1 :: cint)] PSEUDO_EOF = Some 1"
    by (simp add: PSEUDO_EOF_def)
  show ?thesis
    using h1 h2 h3 header_round_trip [OF h1 h2 h3, of "[True, False]"]
    by simp
qed

section \<open>The codes of a tree form a prefix code\<close>

lemma paths_Node:
  "map snd (leaf_codes (Node c z on w)) =
     (if z = NULL \<and> on = NULL then [[]]
      else map ((#) CHR ''0'') (map snd (leaf_codes z)) @
           map ((#) CHR ''1'') (map snd (leaf_codes on)))"
  by (simp add: case_prod_unfold comp_def)

lemma leaves_Node:
  "leaves (Node c z on w) = (if z = NULL \<and> on = NULL then [c] else leaves z @ leaves on)"
  by (simp add: leaves_def case_prod_unfold comp_def)

lemma leaves_NULL [simp]: "leaves NULL = []"
  by (simp add: leaves_def)

lemma paths_distinct: "distinct (map snd (leaf_codes t))"
proof (induction t)
  case NULL
  then show ?case by simp
next
  case (Node c z on w)
  show ?case
    unfolding paths_Node using Node.IH
    by (auto simp: distinct_map inj_on_def)
qed

lemma paths_prefix_free:
  "p \<in> set (map snd (leaf_codes t)) \<Longrightarrow> q \<in> set (map snd (leaf_codes t)) \<Longrightarrow>
   prefix p q \<Longrightarrow> p = q"
proof (induction t arbitrary: p q)
  case NULL
  then show ?case by simp
next
  case (Node c z on w)
  show ?case
  proof (cases "z = NULL \<and> on = NULL")
    case True
    with Node.prems show ?thesis
      unfolding paths_Node by simp
  next
    case False
    from Node.prems(1) False consider
      p' where "p = CHR ''0'' # p'" "p' \<in> set (map snd (leaf_codes z))"
      | p' where "p = CHR ''1'' # p'" "p' \<in> set (map snd (leaf_codes on))"
      unfolding paths_Node by auto
    then show ?thesis
    proof cases
      case 1
      from Node.prems(3) obtain q' where q: "q = CHR ''0'' # q'" and pre: "prefix p' q'"
        unfolding 1(1) by (cases q) auto
      from Node.prems(2) False have "q' \<in> set (map snd (leaf_codes z))"
        unfolding paths_Node q by auto
      with Node.IH(1) 1(2) pre have "p' = q'" by blast
      then show ?thesis by (simp add: 1(1) q)
    next
      case 2
      from Node.prems(3) obtain q' where q: "q = CHR ''1'' # q'" and pre: "prefix p' q'"
        unfolding 2(1) by (cases q) auto
      from Node.prems(2) False have "q' \<in> set (map snd (leaf_codes on))"
        unfolding paths_Node q by auto
      with Node.IH(2) 2(2) pre have "p' = q'" by blast
      then show ?thesis by (simp add: 2(1) q)
    qed
  qed
qed

lemma leaves_nonempty: "t \<noteq> NULL \<Longrightarrow> leaves t \<noteq> []"
proof (induction t)
  case NULL
  then show ?case by simp
next
  case (Node c z on w)
  then show ?case
    unfolding leaves_Node by auto
qed

section \<open>The tree built from a frequency map\<close>

lemma mset_enqueue: "mset (enqueue v p q) = add_mset (v, p) (mset q)"
  by (induction q) auto

lemma set_enqueue: "set (enqueue v p q) = insert (v, p) (set q)"
proof -
  have "set_mset (mset (enqueue v p q)) = set_mset (add_mset (v, p) (mset q))"
    by (simp only: mset_enqueue)
  then show ?thesis by simp
qed

lemma length_enqueue: "length (enqueue v p q) = Suc (length q)"
  by (induction q) auto

lemma queue_leaves_enqueue:
  "mset (queue_leaves (enqueue v p q)) = mset (leaves v) + mset (queue_leaves q)"
  by (induction q) (auto simp: queue_leaves_def)

lemma mergeNodes_empty: "\<exists>f. mergeNodes [] = Inl f"
  by (subst mergeNodes.simps) (simp add: dequeue_def)

lemma mergeNodes_single: "mergeNodes [(r, p)] = Inr r"
  by (subst mergeNodes.simps) (simp add: dequeue_def)

lemma mergeNodes_step:
  "mergeNodes ((Node cz zz oz wz, pz) # (Node co zo oo wo, po) # q) =
   mergeNodes (enqueue (Node NOT_A_CHAR (Node cz zz oz wz) (Node co zo oo wo) (wz + wo))
                       (sint (wz + wo)) q)"
  by (subst mergeNodes.simps) (simp add: dequeue_def)

lemma mergeNodes_result:
  assumes "q \<noteq> []" and "\<forall>(n, p)\<in>set q. n \<noteq> NULL"
  shows "\<exists>t. mergeNodes q = Inr t \<and> t \<noteq> NULL \<and> mset (leaves t) = mset (queue_leaves q) \<and>
             ((\<forall>(n, p)\<in>set q. encoding_tree n) \<longrightarrow> encoding_tree t)"
  using assms
proof (induction "length q" arbitrary: q rule: less_induct)
  case less
  from less.prems(1) obtain a pa q1 where q: "q = (a, pa) # q1"
    by (cases q) auto
  show ?case
  proof (cases q1)
    case Nil
    with less.prems(2) show ?thesis
      by (simp add: q mergeNodes_single queue_leaves_def)
  next
    case (Cons e q2)
    obtain b pb where e: "e = (b, pb)" by (cases e)
    from less.prems(2) obtain cz zz oz wz where a: "a = Node cz zz oz wz"
      unfolding q by (cases a) auto
    from less.prems(2) obtain co zo oo wo where b: "b = Node co zo oo wo"
      unfolding q Cons e by (cases b) auto
    define n where "n = Node NOT_A_CHAR a b (wz + wo)"
    define q' where "q' = enqueue n (sint (wz + wo)) q2"
    have step: "mergeNodes q = mergeNodes q'"
      unfolding q Cons e a b q'_def n_def by (rule mergeNodes_step)
    have len: "length q' < length q"
      by (simp add: q'_def length_enqueue q Cons)
    have ne: "q' \<noteq> []"
      using length_enqueue [of n "sint (wz + wo)" q2] unfolding q'_def by auto
    have nn: "\<forall>(n, p)\<in>set q'. n \<noteq> NULL"
      using less.prems(2) by (auto simp: q'_def set_enqueue q Cons n_def)
    have lv: "leaves n = leaves a @ leaves b"
      by (simp add: n_def leaves_Node a)
    have ql: "mset (queue_leaves q') = mset (queue_leaves q)"
      by (simp add: q'_def queue_leaves_enqueue lv) (simp add: q Cons e queue_leaves_def)
    have et: "(\<forall>(n, p)\<in>set q. encoding_tree n) \<Longrightarrow> (\<forall>(n, p)\<in>set q'. encoding_tree n)"
      by (auto simp: q'_def set_enqueue q Cons e n_def a)
    from less.hyps [OF len ne nn] obtain t where
      "mergeNodes q' = Inr t" "t \<noteq> NULL" "mset (leaves t) = mset (queue_leaves q')"
      "(\<forall>(n, p)\<in>set q'. encoding_tree n) \<longrightarrow> encoding_tree t"
      by blast
    with step ql et show ?thesis
      by auto
  qed
qed

lemma enqueueNodes_fold:
  "foldl (\<lambda>q currChar.
            let node = Node currChar NULL NULL (map_get frequencies currChar 0)
            in enqueue node (sint (weight node)) q) q0 ks = q \<Longrightarrow>
   length q = length q0 + length ks \<and>
   mset (queue_leaves q) = mset (queue_leaves q0) + mset ks \<and>
   ((\<forall>(n, p)\<in>set q0. n \<noteq> NULL) \<longrightarrow> (\<forall>(n, p)\<in>set q. n \<noteq> NULL)) \<and>
   ((\<forall>(n, p)\<in>set q0. encoding_tree n) \<and> NOT_A_CHAR \<notin> set ks \<longrightarrow>
      (\<forall>(n, p)\<in>set q. encoding_tree n))"
proof (induction ks arbitrary: q0)
  case Nil
  then show ?case by simp
next
  case (Cons k ks)
  define q1 where
    "q1 = enqueue (Node k NULL NULL (map_get frequencies k 0)) (sint (map_get frequencies k 0)) q0"
  from Cons.prems have "foldl (\<lambda>q currChar.
            let node = Node currChar NULL NULL (map_get frequencies currChar 0)
            in enqueue node (sint (weight node)) q) q1 ks = q"
    by (simp add: q1_def)
  from Cons.IH [OF this] show ?case
    by (auto simp: q1_def length_enqueue queue_leaves_enqueue set_enqueue leaves_Node)
qed

lemma enqueueNodes_queue:
  "length (enqueueNodes m []) = length m \<and>
   mset (queue_leaves (enqueueNodes m [])) = mset (map_keys m) \<and>
   (\<forall>(n, p)\<in>set (enqueueNodes m []). n \<noteq> NULL) \<and>
   (NOT_A_CHAR \<notin> set (map_keys m) \<longrightarrow> (\<forall>(n, p)\<in>set (enqueueNodes m []). encoding_tree n))"
  using enqueueNodes_fold [of m "[]" "map_keys m" "enqueueNodes m []"]
  by (simp add: enqueueNodes_def queue_leaves_def map_keys_def)

lemma buildEncodingTree_result:
  assumes "m \<noteq> []"
  shows "\<exists>t. buildEncodingTree m = Inr t \<and> t \<noteq> NULL \<and> mset (leaves t) = mset (map_keys m) \<and>
             (NOT_A_CHAR \<notin> set (map_keys m) \<longrightarrow> encoding_tree t)"
proof -
  let ?q = "enqueueNodes m []"
  have "?q \<noteq> []"
    using enqueueNodes_queue [of m] assms by auto
  moreover have "\<forall>(n, p)\<in>set ?q. n \<noteq> NULL"
    using enqueueNodes_queue [of m] by blast
  ultimately obtain t where
    "mergeNodes ?q = Inr t" "t \<noteq> NULL" "mset (leaves t) = mset (queue_leaves ?q)"
    "(\<forall>(n, p)\<in>set ?q. encoding_tree n) \<longrightarrow> encoding_tree t"
    using mergeNodes_result [of ?q] by blast
  then show ?thesis
    using enqueueNodes_queue [of m] by (auto simp: buildEncodingTree_def)
qed

text \<open>
  Claim C9. For a frequency map that is not empty, \<^verbatim>\<open>buildEncodingTree\<close> returns a tree
  whose leaves carry exactly the keys of the map, and the codes of its leaves, the branch
  choices from the root to each leaf, form a prefix code: the code of one leaf is never a
  prefix of the code of another leaf.
\<close>

theorem buildEncodingTree_prefix_code:
  "m \<noteq> [] \<Longrightarrow>
   \<exists>t. buildEncodingTree m = Inr t \<and>
       mset (map fst (leaf_codes t)) = mset (map_keys m) \<and>
       (\<forall>i<length (leaf_codes t). \<forall>j<length (leaf_codes t).
          i \<noteq> j \<longrightarrow> \<not> prefix (snd (leaf_codes t ! i)) (snd (leaf_codes t ! j)))"
proof -
  assume "m \<noteq> []"
  then obtain t where t: "buildEncodingTree m = Inr t" "mset (leaves t) = mset (map_keys m)"
    using buildEncodingTree_result [of m] by blast
  have "\<not> prefix (snd (leaf_codes t ! i)) (snd (leaf_codes t ! j))"
    if "i < length (leaf_codes t)" "j < length (leaf_codes t)" "i \<noteq> j" for i j
  proof
    let ?ps = "map snd (leaf_codes t)"
    assume "prefix (snd (leaf_codes t ! i)) (snd (leaf_codes t ! j))"
    then have "prefix (?ps ! i) (?ps ! j)"
      using that by simp
    moreover have "?ps ! i \<in> set ?ps"
      by (rule nth_mem) (simp add: that)
    moreover have "?ps ! j \<in> set ?ps"
      by (rule nth_mem) (simp add: that)
    ultimately have "?ps ! i = ?ps ! j"
      by (intro paths_prefix_free [of _ t])
    moreover have "distinct ?ps"
      by (rule paths_distinct)
    ultimately have "i = j"
      using that by (simp add: nth_eq_iff_index_eq del: nth_map)
    with that show False by simp
  qed
  with t show ?thesis
    by (auto simp: leaves_def)
qed

theorem buildEncodingTree_prefix_code_witness:
  "[(97, 2), (98, 1), (PSEUDO_EOF, 1 :: cint)] \<noteq> [] \<and>
   buildEncodingTree [(97, 2), (98, 1), (PSEUDO_EOF, 1)] =
     Inr (Node 257 (Node 97 NULL NULL 2)
            (Node 257 (Node 98 NULL NULL 1) (Node 256 NULL NULL 1) 2) 4) \<and>
   leaf_codes (Node 257 (Node 97 NULL NULL 2)
                 (Node 257 (Node 98 NULL NULL 1) (Node 256 NULL NULL 1) 2) 4) =
     [(97, ''0''), (98, ''10''), (256, ''11'')] \<and>
   (\<exists>t. buildEncodingTree [(97, 2), (98, 1), (PSEUDO_EOF, 1)] = Inr t \<and>
       mset (map fst (leaf_codes t)) = mset (map_keys [(97, 2), (98, 1), (PSEUDO_EOF, 1 :: cint)]) \<and>
       (\<forall>i<length (leaf_codes t). \<forall>j<length (leaf_codes t).
          i \<noteq> j \<longrightarrow> \<not> prefix (snd (leaf_codes t ! i)) (snd (leaf_codes t ! j))))"
proof -
  have h: "[(97, 2), (98, 1), (PSEUDO_EOF, 1 :: cint)] \<noteq> []"
    by simp
  have b: "buildEncodingTree [(97, 2), (98, 1), (PSEUDO_EOF, 1)] =
     Inr (Node 257 (Node 97 NULL NULL 2)
            (Node 257 (Node 98 NULL NULL 1) (Node 256 NULL NULL 1) 2) 4)"
    by code_simp
  have c: "leaf_codes (Node 257 (Node 97 NULL NULL 2)
                 (Node 257 (Node 98 NULL NULL 1) (Node 256 NULL NULL 1) 2) 4) =
     [(97, ''0''), (98, ''10''), (256, ''11'')]"
    by simp
  show ?thesis
    using buildEncodingTree_prefix_code [OF h] h b c by blast
qed

section \<open>Walking a code\<close>

lemma walk_NULL [simp]: "walk NULL p = NULL"
  by (cases p) simp_all

lemma walk_append: "walk t (p @ q) = walk (walk t p) q"
  by (induction t p rule: walk.induct) simp_all

lemma searchCodeInTree_walk:
  "searchCodeInTree t p = (case walk t p of NULL \<Rightarrow> Inl NullDereference | Node c z on w \<Rightarrow> Inr c)"
  by (induction t p rule: searchCodeInTree.induct) simp_all

lemma isCorrectCode_walk:
  "isCorrectCode t p ch =
     (case walk t p of NULL \<Rightarrow> Inl NullDereference | Node c z on w \<Rightarrow> Inr (c = ch))"
  by (induction t p ch rule: isCorrectCode.induct) simp_all

lemma encoding_tree_not_NULL: "encoding_tree t \<Longrightarrow> t \<noteq> NULL"
  by (cases t) simp_all

lemma encoding_tree_children:
  "encoding_tree (Node c z on w) \<Longrightarrow> \<not> (z = NULL \<and> on = NULL) \<Longrightarrow>
   c = NOT_A_CHAR \<and> encoding_tree z \<and> encoding_tree on \<and> z \<noteq> NULL \<and> on \<noteq> NULL"
  by (auto simp: encoding_tree_not_NULL)

lemma leaf_code_walk: "(c, p) \<in> set (leaf_codes t) \<Longrightarrow> \<exists>w. walk t p = Node c NULL NULL w"
proof (induction t arbitrary: p)
  case NULL
  then show ?case by simp
next
  case (Node c' z on w')
  show ?case
  proof (cases "z = NULL \<and> on = NULL")
    case True
    with Node.prems show ?thesis by simp
  next
    case False
    with Node.prems consider
      p' where "p = CHR ''0'' # p'" "(c, p') \<in> set (leaf_codes z)"
      | p' where "p = CHR ''1'' # p'" "(c, p') \<in> set (leaf_codes on)"
      by auto
    then show ?thesis
      using Node.IH by cases auto
  qed
qed

lemma leaves_not_marker: "encoding_tree t \<Longrightarrow> c \<in> set (leaves t) \<Longrightarrow> c \<noteq> NOT_A_CHAR"
proof (induction t)
  case NULL
  then show ?case by simp
next
  case (Node c' z on w)
  show ?case
  proof (cases "z = NULL \<and> on = NULL")
    case True
    with Node.prems show ?thesis by (simp add: leaves_Node)
  next
    case False
    with Node.prems Node.IH show ?thesis
      by (auto simp: leaves_Node)
  qed
qed

lemma root_character_absent:
  "encoding_tree t \<Longrightarrow> ch \<notin> set (leaves t) \<Longrightarrow> ch \<noteq> NOT_A_CHAR \<Longrightarrow>
   \<exists>c z on w. t = Node c z on w \<and> c \<noteq> ch"
  by (cases t) (auto simp: leaves_Node split: if_splits)

section \<open>The code that searchCharacterInTree finds\<close>

lemma searchCharacterInTree_absent:
  "encoding_tree t \<Longrightarrow> ch \<notin> set (leaves t) \<Longrightarrow> ch \<noteq> NOT_A_CHAR \<Longrightarrow>
   searchCharacterInTree t ch = Inr []"
proof (induction t)
  case NULL
  then show ?case by simp
next
  case (Node c z on w)
  show ?case
  proof (cases "z = NULL \<and> on = NULL")
    case True
    with Node.prems show ?thesis by simp
  next
    case False
    from encoding_tree_children [OF Node.prems(1) False]
    have c: "c = NOT_A_CHAR" and z: "encoding_tree z" and on: "encoding_tree on" by simp_all
    from Node.prems(2) False have az: "ch \<notin> set (leaves z)" and ao: "ch \<notin> set (leaves on)"
      by (simp_all add: leaves_Node)
    have sz: "searchCharacterInTree z ch = Inr []"
      using z az Node.prems(3) by (rule Node.IH(1))
    have so: "searchCharacterInTree on ch = Inr []"
      using on ao Node.prems(3) by (rule Node.IH(2))
    obtain cz zz oz wz where rz: "z = Node cz zz oz wz" "cz \<noteq> ch"
      using root_character_absent [OF z az Node.prems(3)] by blast
    obtain co zo oo wo where ro: "on = Node co zo oo wo" "co \<noteq> ch"
      using root_character_absent [OF on ao Node.prems(3)] by blast
    have c0: "isCorrectCode z [] ch = Inr False"
      using rz by simp
    have c1: "isCorrectCode on [] ch = Inr False"
      using ro by simp
    show ?thesis
      by (simp add: c sz so c0 c1)
  qed
qed

lemma searchCharacterInTree_present:
  "encoding_tree t \<Longrightarrow> distinct (leaves t) \<Longrightarrow> (ch, p) \<in> set (leaf_codes t) \<Longrightarrow>
   searchCharacterInTree t ch = Inr p"
proof (induction t arbitrary: p)
  case NULL
  then show ?case by simp
next
  case (Node c z on w)
  show ?case
  proof (cases "z = NULL \<and> on = NULL")
    case True
    with Node.prems show ?thesis by simp
  next
    case False
    from encoding_tree_children [OF Node.prems(1) False]
    have c: "c = NOT_A_CHAR" and z: "encoding_tree z" and on: "encoding_tree on" by simp_all
    from Node.prems(2) False have dz: "distinct (leaves z)" and do: "distinct (leaves on)"
      and disj: "set (leaves z) \<inter> set (leaves on) = {}"
      by (simp_all add: leaves_Node)
    from Node.prems(3) False consider
      p' where "p = CHR ''0'' # p'" "(ch, p') \<in> set (leaf_codes z)"
      | p' where "p = CHR ''1'' # p'" "(ch, p') \<in> set (leaf_codes on)"
      by auto
    then show ?thesis
    proof cases
      case 1
      have sz: "searchCharacterInTree z ch = Inr p'"
        using z dz 1(2) by (rule Node.IH(1))
      obtain w' where "walk z p' = Node ch NULL NULL w'"
        using leaf_code_walk [OF 1(2)] by blast
      then have "isCorrectCode z p' ch = Inr True"
        by (simp add: isCorrectCode_walk)
      then show ?thesis
        by (simp add: c sz 1(1))
    next
      case 2
      have "ch \<in> set (leaves on)"
        using 2(2) by (force simp: leaves_def)
      with disj have az: "ch \<notin> set (leaves z)" by blast
      have nm: "ch \<noteq> NOT_A_CHAR"
        using on \<open>ch \<in> set (leaves on)\<close> by (rule leaves_not_marker)
      have sz: "searchCharacterInTree z ch = Inr []"
        using z az nm by (rule searchCharacterInTree_absent)
      obtain cz zz oz wz where rz: "z = Node cz zz oz wz" "cz \<noteq> ch"
        using root_character_absent [OF z az nm] by blast
      have c0: "isCorrectCode z [] ch = Inr False"
        using rz by simp
      have so: "searchCharacterInTree on ch = Inr p'"
        using on do 2(2) by (rule Node.IH(2))
      obtain w' where "walk on p' = Node ch NULL NULL w'"
        using leaf_code_walk [OF 2(2)] by blast
      then have c1: "isCorrectCode on p' ch = Inr True"
        by (simp add: isCorrectCode_walk)
      show ?thesis
        by (simp add: c sz c0 so c1 2(1))
    qed
  qed
qed

lemma searchCharacterInTree_total:
  "encoding_tree t \<Longrightarrow> \<exists>p. searchCharacterInTree t ch = Inr p \<and> walk t p \<noteq> NULL"
proof (induction t)
  case NULL
  then show ?case by simp
next
  case (Node c z on w)
  show ?case
  proof (cases "z = NULL \<and> on = NULL")
    case True
    with Node.prems show ?thesis by simp
  next
    case False
    from encoding_tree_children [OF Node.prems False]
    have c: "c = NOT_A_CHAR" and z: "encoding_tree z" and on: "encoding_tree on" by simp_all
    obtain r0 where r0: "searchCharacterInTree z ch = Inr r0" "walk z r0 \<noteq> NULL"
      using Node.IH(1) [OF z] by blast
    obtain r1 where r1: "searchCharacterInTree on ch = Inr r1" "walk on r1 \<noteq> NULL"
      using Node.IH(2) [OF on] by blast
    obtain c0 z0 o0 w0 where n0: "walk z r0 = Node c0 z0 o0 w0"
      using r0(2) by (cases "walk z r0") auto
    obtain c1 z1 o1 w1 where n1: "walk on r1 = Node c1 z1 o1 w1"
      using r1(2) by (cases "walk on r1") auto
    have i0: "isCorrectCode z r0 ch = Inr (c0 = ch)"
      by (simp add: isCorrectCode_walk n0)
    have i1: "isCorrectCode on r1 ch = Inr (c1 = ch)"
      by (simp add: isCorrectCode_walk n1)
    show ?thesis
      by (cases "c0 = ch"; cases "c1 = ch") (simp_all add: c r0 r1 i0 i1 n0 n1)
  qed
qed

lemma searchCharacterInTree_code_of:
  "encoding_tree t \<Longrightarrow> searchCharacterInTree t ch = Inr (code_of t ch)"
  using searchCharacterInTree_total [of t ch] by (auto simp: code_of_def)

section \<open>The bits that encodeFile writes\<close>

lemma writeBits_bits: "writeBits outfile code = outfile\<lparr>ob_bits := ob_bits outfile @ code_bits code\<rparr>"
  by (induction code arbitrary: outfile) (simp_all add: code_bits_def writeBit_def)

lemma code_bits_append: "code_bits (a @ b) = code_bits a @ code_bits b"
  by (simp add: code_bits_def)

lemma get_end: "ib_rest infile = [] \<Longrightarrow> get infile = (EOF, infile)"
  by (simp add: get_def)

lemma of_char_int_range: "0 \<le> (of_char c :: int) \<and> (of_char c :: int) \<le> 255"
proof -
  have eq: "(of_char c :: int) = int (of_char c)"
    by (simp only: of_nat_of_char)
  have "(of_char c :: nat) < 256"
    by simp
  then have "int (of_char c) \<le> 255"
    by linarith
  then show ?thesis
    unfolding eq by simp
qed

lemma of_char_not_EOF: "(of_char c :: int) \<noteq> EOF"
  using of_char_int_range [of c] by (simp add: EOF_def)

lemma encodeFile_loop_bits:
  assumes "encoding_tree t"
    and "\<forall>k v. map_of encodingMap k = Some v \<longrightarrow> v = code_of t k"
    and "ib_rest infile = s"
  shows "encodeFile_loop infile t outfile encodingMap =
         Inr (infile\<lparr>ib_rest := []\<rparr>,
              outfile\<lparr>ob_bits := ob_bits outfile @
                 code_bits (concat (map (\<lambda>c. code_of t (of_char c)) s))\<rparr>)"
  using assms(2,3)
proof (induction s arbitrary: infile outfile encodingMap)
  case Nil
  then have "infile\<lparr>ib_rest := []\<rparr> = infile" by simp
  with Nil show ?case
    by (subst encodeFile_loop.simps) (simp add: get_end code_bits_def)
next
  case (Cons c cs)
  define k :: int where "k = of_char c"
  define infile' where "infile' = infile\<lparr>ib_rest := cs\<rparr>"
  have g: "get infile = (k, infile')"
    using Cons.prems(2) by (simp add: get_char k_def infile'_def)
  have k: "k \<noteq> EOF"
    by (simp add: k_def of_char_not_EOF)
  have search: "searchCharacterInTree t k = Inr (code_of t k)"
    using assms(1) by (rule searchCharacterInTree_code_of)
  have rest: "ib_rest infile' = cs"
    by (simp add: infile'_def)
  have upd: "infile'\<lparr>ib_rest := []\<rparr> = infile\<lparr>ib_rest := []\<rparr>"
    by (simp add: infile'_def)
  show ?case
  proof (cases "containsKey encodingMap k")
    case True
    then obtain v where v: "map_of encodingMap k = Some v"
      by (auto simp: containsKey_def)
    with Cons.prems(1) have "v = code_of t k" by blast
    with v have cached: "map_get encodingMap k [] = code_of t k"
      by (simp add: map_get_def)
    have "encodeFile_loop infile t outfile encodingMap =
          encodeFile_loop infile' t (writeBits outfile (code_of t k)) encodingMap"
      using True k by (subst encodeFile_loop.simps) (simp add: g cached)
    also have "\<dots> = Inr (infile'\<lparr>ib_rest := []\<rparr>,
        (writeBits outfile (code_of t k))\<lparr>ob_bits := ob_bits (writeBits outfile (code_of t k)) @
           code_bits (concat (map (\<lambda>c. code_of t (of_char c)) cs))\<rparr>)"
      using Cons.prems(1) rest by (rule Cons.IH)
    finally show ?thesis
      by (simp add: upd writeBits_bits code_bits_append k_def)
  next
    case False
    have ok: "\<forall>k' v. map_of (map_put k (code_of t k) encodingMap) k' = Some v \<longrightarrow> v = code_of t k'"
      using Cons.prems(1) by (auto simp: map_of_map_put)
    have "encodeFile_loop infile t outfile encodingMap =
          encodeFile_loop infile' t (writeBits outfile (code_of t k))
            (map_put k (code_of t k) encodingMap)"
      using False k by (subst encodeFile_loop.simps) (simp add: g search)
    also have "\<dots> = Inr (infile'\<lparr>ib_rest := []\<rparr>,
        (writeBits outfile (code_of t k))\<lparr>ob_bits := ob_bits (writeBits outfile (code_of t k)) @
           code_bits (concat (map (\<lambda>c. code_of t (of_char c)) cs))\<rparr>)"
      using ok rest by (rule Cons.IH)
    finally show ?thesis
      by (simp add: upd writeBits_bits code_bits_append k_def)
  qed
qed

lemma encodeFile_bits:
  assumes "encoding_tree t"
  shows "encodeFile infile t outfile =
         Inr (infile\<lparr>ib_rest := []\<rparr>,
              outfile\<lparr>ob_bits := ob_bits outfile @
                 code_bits (concat (map (\<lambda>c. code_of t (of_char c)) (ib_rest infile)) @
                            code_of t PSEUDO_EOF)\<rparr>)"
proof -
  have "encodeFile_loop infile t outfile [] =
         Inr (infile\<lparr>ib_rest := []\<rparr>,
              outfile\<lparr>ob_bits := ob_bits outfile @
                 code_bits (concat (map (\<lambda>c. code_of t (of_char c)) (ib_rest infile)))\<rparr>)"
    using assms by (rule encodeFile_loop_bits) simp_all
  then show ?thesis
    by (simp add: encodeFile_def searchCharacterInTree_code_of [OF assms] writeBits_bits
        code_bits_append)
qed

text \<open>
  Claim C10. When a byte of the input is not the symbol of a leaf of the encoding tree,
  \<^verbatim>\<open>searchCharacterInTree\<close> returns the empty code for it; \<^verbatim>\<open>encodeFile\<close> returns without a
  fault, and the bits it writes are the bits it writes for the input without that byte.
\<close>

theorem encodeFile_omits_unknown_byte:
  "encoding_tree t \<Longrightarrow> of_char c \<notin> set (leaves t) \<Longrightarrow>
   searchCharacterInTree t (of_char c) = Inr [] \<and>
   (\<exists>infile1 infile2 outfile'.
      encodeFile (open_file (pre @ c # post)) t outfile = Inr (infile1, outfile') \<and>
      encodeFile (open_file (pre @ post)) t outfile = Inr (infile2, outfile'))"
proof -
  assume t: "encoding_tree t" and absent: "of_char c \<notin> set (leaves t)"
  have "(of_char c :: int) \<noteq> NOT_A_CHAR"
    using of_char_int_range [of c] by (simp add: NOT_A_CHAR_def)
  with t absent have search: "searchCharacterInTree t (of_char c) = Inr []"
    by (rule searchCharacterInTree_absent)
  then have "code_of t (of_char c) = []"
    by (simp add: code_of_def)
  then show ?thesis
    using search by (simp add: encodeFile_bits [OF t] open_file_def)
qed

theorem encodeFile_omits_unknown_byte_witness:
  "encoding_tree (Node 257 (Node 97 NULL NULL 2)
                    (Node 257 (Node 98 NULL NULL 1) (Node 256 NULL NULL 1) 2) 4) \<and>
   of_char CHR ''z'' \<notin> set (leaves (Node 257 (Node 97 NULL NULL 2)
                    (Node 257 (Node 98 NULL NULL 1) (Node 256 NULL NULL 1) 2) 4)) \<and>
   searchCharacterInTree (Node 257 (Node 97 NULL NULL 2)
                    (Node 257 (Node 98 NULL NULL 1) (Node 256 NULL NULL 1) 2) 4)
      (of_char CHR ''z'') = Inr [] \<and>
   (\<exists>infile1 infile2 outfile'.
      encodeFile (open_file (''a'' @ CHR ''z'' # ''b''))
        (Node 257 (Node 97 NULL NULL 2)
           (Node 257 (Node 98 NULL NULL 1) (Node 256 NULL NULL 1) 2) 4) new_file =
        Inr (infile1, outfile') \<and>
      encodeFile (open_file (''a'' @ ''b''))
        (Node 257 (Node 97 NULL NULL 2)
           (Node 257 (Node 98 NULL NULL 1) (Node 256 NULL NULL 1) 2) 4) new_file =
        Inr (infile2, outfile'))"
proof -
  let ?t = "Node 257 (Node 97 NULL NULL 2)
              (Node 257 (Node 98 NULL NULL 1) (Node 256 NULL NULL 1) 2) 4"
  have h1: "encoding_tree ?t"
    by (simp add: NOT_A_CHAR_def)
  have h2: "of_char CHR ''z'' \<notin> set (leaves ?t)"
    by (simp add: leaves_def)
  show ?thesis
    using h1 h2 encodeFile_omits_unknown_byte [OF h1 h2, of "''a''" "''b''" new_file]
    by simp
qed

section \<open>Decoding the code of a leaf\<close>

lemma integerToString_0: "integerToString 0 = ''0''"
  by code_simp

lemma integerToString_1: "integerToString 1 = ''1''"
  by code_simp

lemma integerToString_bit: "integerToString (if b then 1 else 0) = (if b then ''1'' else ''0'')"
  by (simp add: integerToString_0 integerToString_1)

lemma integerToString_EOF: "integerToString EOF = ''-1''"
  unfolding EOF_def by code_simp

lemma readBit_bit:
  "ib_bits infile = b # bs \<Longrightarrow> readBit infile = (if b then 1 else 0, infile\<lparr>ib_bits := bs\<rparr>)"
  by (simp add: readBit_def)

lemma readBit_end: "ib_bits infile = [] \<Longrightarrow> readBit infile = (EOF, infile)"
  by (simp add: readBit_def)

lemma leaf_code_chars:
  "(c, p) \<in> set (leaf_codes t) \<Longrightarrow> x \<in> set p \<Longrightarrow> x = CHR ''0'' \<or> x = CHR ''1''"
proof (induction t arbitrary: p)
  case NULL
  then show ?case by simp
next
  case (Node c' z on w)
  show ?case
  proof (cases "z = NULL \<and> on = NULL")
    case True
    with Node.prems show ?thesis by simp
  next
    case False
    with Node.prems(1) consider
      p' where "p = CHR ''0'' # p'" "(c, p') \<in> set (leaf_codes z)"
      | p' where "p = CHR ''1'' # p'" "(c, p') \<in> set (leaf_codes on)"
      by auto
    then show ?thesis
      using Node.IH Node.prems(2) by cases auto
  qed
qed

lemma proper_prefix_internal:
  "encoding_tree t \<Longrightarrow> (c, p1 @ x # p2) \<in> set (leaf_codes t) \<Longrightarrow>
   \<exists>z on w. walk t p1 = Node NOT_A_CHAR z on w"
proof (induction t arbitrary: p1)
  case NULL
  then show ?case by simp
next
  case (Node c' z on w)
  show ?case
  proof (cases "z = NULL \<and> on = NULL")
    case True
    with Node.prems show ?thesis by simp
  next
    case False
    note ch = encoding_tree_children [OF Node.prems(1) False]
    show ?thesis
    proof (cases p1)
      case Nil
      with ch show ?thesis by simp
    next
      case (Cons y p1')
      with Node.prems(2) False consider
        "y = CHR ''0''" "(c, p1' @ x # p2) \<in> set (leaf_codes z)"
        | "y = CHR ''1''" "(c, p1' @ x # p2) \<in> set (leaf_codes on)"
        by auto
      then show ?thesis
        using Node.IH ch Cons by cases auto
    qed
  qed
qed

lemma code_nonempty:
  "encoding_tree t \<Longrightarrow> \<not> is_leaf t \<Longrightarrow> (c, p) \<in> set (leaf_codes t) \<Longrightarrow> p \<noteq> []"
  by (cases t) (auto simp: is_leaf_def)

lemma decodeFile_loop_code:
  assumes "encoding_tree t"
    and "(ch, p1 @ p2) \<in> set (leaf_codes t)"
    and "p2 \<noteq> []"
    and "ib_bits infile = code_bits p2 @ rest"
  shows "decodeFile_loop infile t file p1 =
         (if ch = PSEUDO_EOF then Some (Inr (infile\<lparr>ib_bits := rest\<rparr>, file))
          else decodeFile_loop (infile\<lparr>ib_bits := rest\<rparr>) t (put file ch) [])"
  using assms(2-4)
proof (induction p2 arbitrary: p1 infile)
  case Nil
  then show ?case by simp
next
  case (Cons x p2')
  define infile1 where "infile1 = infile\<lparr>ib_bits := code_bits p2' @ rest\<rparr>"
  have "x \<in> set (p1 @ x # p2')" by simp
  with Cons.prems(1) have x: "x = CHR ''0'' \<or> x = CHR ''1''"
    by (rule leaf_code_chars)
  have bits: "ib_bits infile = (x \<noteq> CHR ''0'') # code_bits p2' @ rest"
    using Cons.prems(3) by (simp add: code_bits_def)
  have rb: "readBit infile = (if x \<noteq> CHR ''0'' then 1 else 0, infile1)"
    unfolding infile1_def by (rule readBit_bit [OF bits])
  have str: "integerToString (if x \<noteq> CHR ''0'' then 1 else 0) = [x]"
    using x by (auto simp: integerToString_bit)
  show ?case
  proof (cases "p2' = []")
    case True
    obtain w where "walk t (p1 @ [x]) = Node ch NULL NULL w"
      using leaf_code_walk [OF Cons.prems(1)] True by auto
    then have found: "searchCodeInTree t (p1 @ [x]) = Inr ch"
      by (simp add: searchCodeInTree_walk)
    have "ch \<in> set (leaves t)"
      using Cons.prems(1) by (force simp: leaves_def)
    with assms(1) have nm: "ch \<noteq> NOT_A_CHAR"
      by (rule leaves_not_marker)
    have i1: "infile1 = infile\<lparr>ib_bits := rest\<rparr>"
      by (simp add: infile1_def True code_bits_def)
    show ?thesis
      using nm by (subst decodeFile_loop.simps) (simp add: rb str found i1)
  next
    case False
    then obtain y p2'' where p2': "p2' = y # p2''"
      by (cases p2') auto
    have mem: "(ch, (p1 @ [x]) @ y # p2'') \<in> set (leaf_codes t)"
      using Cons.prems(1) by (simp add: p2')
    obtain z on w where "walk t (p1 @ [x]) = Node NOT_A_CHAR z on w"
      using proper_prefix_internal [OF assms(1) mem] by blast
    then have inner: "searchCodeInTree t (p1 @ [x]) = Inr NOT_A_CHAR"
      by (simp add: searchCodeInTree_walk)
    have ne: "NOT_A_CHAR \<noteq> PSEUDO_EOF"
      by (simp add: NOT_A_CHAR_def PSEUDO_EOF_def)
    have step: "decodeFile_loop infile t file p1 = decodeFile_loop infile1 t file (p1 @ [x])"
      using ne by (subst decodeFile_loop.simps) (simp add: rb str inner)
    have mem': "(ch, (p1 @ [x]) @ p2') \<in> set (leaf_codes t)"
      using Cons.prems(1) by simp
    have "decodeFile_loop infile1 t file (p1 @ [x]) =
          (if ch = PSEUDO_EOF then Some (Inr (infile1\<lparr>ib_bits := rest\<rparr>, file))
           else decodeFile_loop (infile1\<lparr>ib_bits := rest\<rparr>) t (put file ch) [])"
      using mem' False by (rule Cons.IH) (simp add: infile1_def)
    then show ?thesis
      by (simp add: step infile1_def)
  qed
qed

lemma decodeFile_loop_message:
  assumes "encoding_tree t" and "\<not> is_leaf t"
    and "\<forall>c\<in>set s. (of_char c, code_of t (of_char c)) \<in> set (leaf_codes t)"
    and "(PSEUDO_EOF, code_of t PSEUDO_EOF) \<in> set (leaf_codes t)"
    and "ib_bits infile =
         code_bits (concat (map (\<lambda>c. code_of t (of_char c)) s) @ code_of t PSEUDO_EOF) @ padding"
  shows "decodeFile_loop infile t file [] = Some (Inr (infile\<lparr>ib_bits := padding\<rparr>, file @ s))"
  using assms(3,5)
proof (induction s arbitrary: infile "file")
  case Nil
  have ne: "code_of t PSEUDO_EOF \<noteq> []"
    using assms(1,2,4) by (rule code_nonempty)
  have mem: "(PSEUDO_EOF, [] @ code_of t PSEUDO_EOF) \<in> set (leaf_codes t)"
    using assms(4) by simp
  have bits: "ib_bits infile = code_bits (code_of t PSEUDO_EOF) @ padding"
    using Nil.prems(2) by simp
  show ?case
    using decodeFile_loop_code [OF assms(1) mem ne bits, of "file"] by simp
next
  case (Cons c cs)
  define k :: int where "k = of_char c"
  have memk: "(k, [] @ code_of t k) \<in> set (leaf_codes t)"
    using Cons.prems(1) by (simp add: k_def)
  then have ne: "code_of t k \<noteq> []"
    using assms(1,2) code_nonempty [of t k "code_of t k"] by simp
  define rest where
    "rest = code_bits (concat (map (\<lambda>c. code_of t (of_char c)) cs) @ code_of t PSEUDO_EOF) @ padding"
  have bits: "ib_bits infile = code_bits (code_of t k) @ rest"
    using Cons.prems(2) by (simp add: k_def rest_def code_bits_append)
  have k: "k \<noteq> PSEUDO_EOF"
    using of_char_int_range [of c] by (simp add: k_def PSEUDO_EOF_def)
  have byte: "put file k = file @ [c]"
    by (simp add: put_def k_def)
  have "decodeFile_loop infile t file [] =
        decodeFile_loop (infile\<lparr>ib_bits := rest\<rparr>) t (file @ [c]) []"
    using decodeFile_loop_code [OF assms(1) memk ne bits, of "file"] k by (simp add: byte)
  also have "\<dots> = Some (Inr (infile\<lparr>ib_bits := rest\<rparr>\<lparr>ib_bits := padding\<rparr>, (file @ [c]) @ cs))"
    using Cons.prems(1) by (intro Cons.IH) (simp_all add: rest_def)
  finally show ?case
    by simp
qed

section \<open>The frequency table of an input\<close>

lemma wf_map_empty: "wf_map []"
  by (simp add: wf_map_def)

lemma getFrequencyTable_loop_keys:
  assumes "wf_map freqTable" and "ib_rest infile = s"
  shows "\<exists>m. getFrequencyTable_loop infile freqTable = (m, infile\<lparr>ib_rest := []\<rparr>) \<and> wf_map m \<and>
             set (map fst m) = set (map fst freqTable) \<union> of_char ` set s"
  using assms
proof (induction s arbitrary: infile freqTable)
  case Nil
  then have "infile\<lparr>ib_rest := []\<rparr> = infile" by simp
  with Nil show ?case
    by (subst getFrequencyTable_loop.simps) (simp add: get_end)
next
  case (Cons c cs)
  define k :: int where "k = of_char c"
  define infile' where "infile' = infile\<lparr>ib_rest := cs\<rparr>"
  define v where "v = (if containsKey freqTable k then map_get freqTable k 0 + 1 else (1 :: cint))"
  have g: "get infile = (k, infile')"
    using Cons.prems(2) by (simp add: get_char k_def infile'_def)
  have k: "k \<noteq> EOF"
    by (simp add: k_def of_char_not_EOF)
  have step: "getFrequencyTable_loop infile freqTable =
              getFrequencyTable_loop infile' (map_put k v freqTable)"
    using k by (subst getFrequencyTable_loop.simps) (simp add: g v_def)
  have wf: "wf_map (map_put k v freqTable)"
    using Cons.prems(1) by (rule wf_map_put)
  have rest: "ib_rest infile' = cs"
    by (simp add: infile'_def)
  obtain m where m: "getFrequencyTable_loop infile' (map_put k v freqTable) = (m, infile'\<lparr>ib_rest := []\<rparr>)"
    "wf_map m" "set (map fst m) = set (map fst (map_put k v freqTable)) \<union> of_char ` set cs"
    using Cons.IH [OF wf rest] by blast
  have "infile'\<lparr>ib_rest := []\<rparr> = infile\<lparr>ib_rest := []\<rparr>"
    by (simp add: infile'_def)
  with m step show ?case
    by (simp only: keys_map_put) (auto simp: k_def)
qed

lemma getFrequencyTable_result:
  "\<exists>m. getFrequencyTable (open_file s) = (m, \<lparr>ib_file = s, ib_rest = [], ib_bits = []\<rparr>) \<and>
       wf_map m \<and> set (map fst m) = insert PSEUDO_EOF (of_char ` set s) \<and>
       map_of m PSEUDO_EOF = Some 1"
proof -
  obtain m where m: "getFrequencyTable_loop (open_file s) [] = (m, (open_file s)\<lparr>ib_rest := []\<rparr>)"
    "wf_map m" "set (map fst m) = set (map fst ([] :: cint Map)) \<union> of_char ` set s"
    using getFrequencyTable_loop_keys [OF wf_map_empty, of "open_file s" s]
    by (auto simp: open_file_def)
  have "wf_map (map_put PSEUDO_EOF 1 m)"
    using m(2) by (rule wf_map_put)
  moreover have "set (map fst (map_put PSEUDO_EOF 1 m)) = insert PSEUDO_EOF (of_char ` set s)"
    using m(3) by (simp only: keys_map_put) simp
  moreover have "map_of (map_put PSEUDO_EOF 1 m) PSEUDO_EOF = Some 1"
    by (simp add: map_of_map_put)
  ultimately show ?thesis
    using m(1) by (simp add: getFrequencyTable_def open_file_def)
qed

section \<open>Compressing and decompressing an input that is not empty\<close>

lemma leaf_has_code: "c \<in> set (leaves t) \<Longrightarrow> \<exists>p. (c, p) \<in> set (leaf_codes t)"
  by (auto simp: leaves_def)

lemma is_leaf_leaves: "is_leaf t \<Longrightarrow> length (leaves t) = 1"
  by (cases t) (auto simp: is_leaf_def leaves_Node)

lemma round_trip_nonempty:
  assumes "s \<noteq> []"
  shows "\<exists>infile outfile.
           compress (open_file s) new_file = Inr (infile, outfile) \<and>
           decompress (reopen outfile padding) [] =
             Some (Inr (\<lparr>ib_file = ob_text outfile, ib_rest = [], ib_bits = padding\<rparr>, s))"
proof -
  obtain m where m: "getFrequencyTable (open_file s) = (m, \<lparr>ib_file = s, ib_rest = [], ib_bits = []\<rparr>)"
    "wf_map m" "set (map fst m) = insert PSEUDO_EOF (of_char ` set s)"
    "map_of m PSEUDO_EOF = Some 1"
    using getFrequencyTable_result [of s] by blast
  have byte_keys: "\<forall>(k, v)\<in>set m. k = PSEUDO_EOF \<or> (0 \<le> k \<and> k \<le> 255)"
  proof -
    have "k = PSEUDO_EOF \<or> (0 \<le> k \<and> k \<le> 255)" if kv: "(k, v) \<in> set m" for k v
    proof -
      from kv have "k \<in> set (map fst m)" by force
      with m(3) show ?thesis
        using of_char_int_range by auto
    qed
    then show ?thesis by blast
  qed
  have sentinel: "containsKey m PSEUDO_EOF"
    using m(4) by (simp add: containsKey_def)
  have header: "writeFileHeader new_file m = (None, \<lparr>ob_text = header_format m, ob_bits = []\<rparr>)"
    using m(2) sentinel by (simp add: writeFileHeader_text new_file_def)
  have "m \<noteq> []"
    using m(4) by auto
  moreover have no_marker: "NOT_A_CHAR \<notin> set (map_keys m)"
  proof
    assume "NOT_A_CHAR \<in> set (map_keys m)"
    with m(3) have "NOT_A_CHAR \<in> insert PSEUDO_EOF (of_char ` set s)"
      by (simp add: map_keys_def)
    then obtain c where "(of_char c :: int) = NOT_A_CHAR"
      by (auto simp: NOT_A_CHAR_def PSEUDO_EOF_def)
    with of_char_int_range [of c] show False
      by (simp add: NOT_A_CHAR_def)
  qed
  ultimately obtain t where t: "buildEncodingTree m = Inr t" "mset (leaves t) = mset (map_keys m)"
    "encoding_tree t"
    using buildEncodingTree_result [of m] by blast
  have set_leaves: "set (leaves t) = insert PSEUDO_EOF (of_char ` set s)"
    using mset_eq_setD [OF t(2)] m(3) by (simp add: map_keys_def)
  have "distinct (map_keys m)"
    using wf_map_distinct [OF m(2)] by (simp add: map_keys_def)
  then have dist: "distinct (leaves t)"
    using mset_eq_imp_distinct_iff [OF t(2)] by simp
  have code: "(k, code_of t k) \<in> set (leaf_codes t)" if kl: "k \<in> set (leaves t)" for k
  proof -
    obtain p where p: "(k, p) \<in> set (leaf_codes t)"
      using leaf_has_code [OF kl] by blast
    with t(3) dist have "searchCharacterInTree t k = Inr p"
      by (rule searchCharacterInTree_present)
    then have "code_of t k = p"
      by (simp add: code_of_def)
    with p show ?thesis by simp
  qed
  have inner: "\<not> is_leaf t"
  proof
    assume "is_leaf t"
    then have "length (leaves t) = 1"
      by (rule is_leaf_leaves)
    with dist have "card (set (leaves t)) = 1"
      by (simp add: distinct_card)
    moreover obtain c where "c \<in> set s"
      using assms by (cases s) auto
    then have "of_char c \<in> set (leaves t)" "PSEUDO_EOF \<in> set (leaves t)"
      "(of_char c :: int) \<noteq> PSEUDO_EOF"
      using of_char_int_range [of c] by (auto simp: set_leaves PSEUDO_EOF_def)
    ultimately show False
      by (auto simp: card_1_singleton_iff)
  qed
  define bits where
    "bits = code_bits (concat (map (\<lambda>c. code_of t (of_char c)) s) @ code_of t PSEUDO_EOF)"
  define outfile where "outfile = \<lparr>ob_text = header_format m, ob_bits = bits\<rparr>"
  have enc: "encodeFile (rewind \<lparr>ib_file = s, ib_rest = [], ib_bits = []\<rparr>) t
               \<lparr>ob_text = header_format m, ob_bits = []\<rparr> =
             Inr (\<lparr>ib_file = s, ib_rest = [], ib_bits = []\<rparr>, outfile)"
    by (simp add: encodeFile_bits [OF t(3)] rewind_def outfile_def bits_def)
  have comp: "compress (open_file s) new_file =
              Inr (\<lparr>ib_file = s, ib_rest = [], ib_bits = []\<rparr>, outfile)"
    by (simp add: compress_def m(1) header t(1) enc)
  have rd: "readFileHeader (reopen outfile padding) =
            Inr (m, \<lparr>ib_file = header_format m, ib_rest = [], ib_bits = bits @ padding\<rparr>)"
    using readFileHeader_header_format [OF m(2) byte_keys m(4)]
    by (simp add: reopen_def outfile_def)
  have "\<forall>c\<in>set s. (of_char c, code_of t (of_char c)) \<in> set (leaf_codes t)"
    using code by (simp add: set_leaves)
  moreover have "(PSEUDO_EOF, code_of t PSEUDO_EOF) \<in> set (leaf_codes t)"
    using code by (simp add: set_leaves)
  moreover have "ib_bits \<lparr>ib_file = header_format m, ib_rest = [], ib_bits = bits @ padding\<rparr> =
                 bits @ padding"
    by simp
  ultimately have "decodeFile_loop \<lparr>ib_file = header_format m, ib_rest = [], ib_bits = bits @ padding\<rparr> t [] [] =
      Some (Inr (\<lparr>ib_file = header_format m, ib_rest = [], ib_bits = bits @ padding\<rparr>\<lparr>ib_bits := padding\<rparr>,
                 [] @ s))"
    unfolding bits_def by (intro decodeFile_loop_message [OF t(3) inner])
  moreover have "decompress (reopen outfile padding) [] =
      decodeFile_loop \<lparr>ib_file = header_format m, ib_rest = [], ib_bits = bits @ padding\<rparr> t [] []"
    by (simp add: decompress_def rd t(1) decodeFile_def)
  ultimately have "decompress (reopen outfile padding) [] =
             Some (Inr (\<lparr>ib_file = ob_text outfile, ib_rest = [], ib_bits = padding\<rparr>, s))"
    by (simp add: outfile_def)
  with comp show ?thesis
    by blast
qed

text \<open>
  Claim C4. An input of \<open>n\<close> copies of one byte, \<open>n\<close> at least 1, is compressed without a
  fault, and decompressing the compressed file, with any padding behind its bits, writes
  the \<open>n\<close> copies of the byte. The count of the byte is a 32-bit \<^verbatim>\<open>int\<close> that wraps around
  for long inputs; the round trip does not depend on its value.
\<close>

theorem single_symbol_round_trip:
  "1 \<le> n \<Longrightarrow>
   \<exists>infile outfile.
     compress (open_file (replicate n b)) new_file = Inr (infile, outfile) \<and>
     decompress (reopen outfile padding) [] =
       Some (Inr (\<lparr>ib_file = ob_text outfile, ib_rest = [], ib_bits = padding\<rparr>, replicate n b))"
proof -
  assume "1 \<le> n"
  then have "replicate n b \<noteq> []"
    by auto
  then show ?thesis
    by (rule round_trip_nonempty)
qed

theorem single_symbol_round_trip_witness:
  "(1 :: nat) \<le> 3 \<and>
   compress (open_file ''AAA'') new_file =
     Inr (\<lparr>ib_file = ''AAA'', ib_rest = [], ib_bits = []\<rparr>,
          \<lparr>ob_text = ''1 A3 '', ob_bits = [True, True, True, False]\<rparr>) \<and>
   (\<exists>infile outfile.
     compress (open_file (replicate 3 CHR ''A'')) new_file = Inr (infile, outfile) \<and>
     decompress (reopen outfile [False, False, False, False]) [] =
       Some (Inr (\<lparr>ib_file = ob_text outfile, ib_rest = [], ib_bits = [False, False, False, False]\<rparr>,
                  replicate 3 CHR ''A'')))"
proof -
  have h: "(1 :: nat) \<le> 3"
    by simp
  have c: "compress (open_file ''AAA'') new_file =
     Inr (\<lparr>ib_file = ''AAA'', ib_rest = [], ib_bits = []\<rparr>,
          \<lparr>ob_text = ''1 A3 '', ob_bits = [True, True, True, False]\<rparr>)"
    by code_simp
  show ?thesis
    using h c single_symbol_round_trip [OF h, of "CHR ''A''" "[False, False, False, False]"]
    by blast
qed

section \<open>decodeFile and the reference decoder\<close>

lemma walk_encoding_tree: "encoding_tree t \<Longrightarrow> walk t p \<noteq> NULL \<Longrightarrow> encoding_tree (walk t p)"
proof (induction p arbitrary: t)
  case Nil
  then show ?case by simp
next
  case (Cons x p)
  obtain c z on w where t: "t = Node c z on w"
    using Cons.prems(1) by (cases t) auto
  show ?case
  proof (cases "z = NULL \<and> on = NULL")
    case True
    with Cons.prems(2) show ?thesis by (simp add: t)
  next
    case False
    from encoding_tree_children [OF Cons.prems(1) [unfolded t] False] Cons.prems(2) Cons.IH
    show ?thesis
      by (simp add: t)
  qed
qed

lemma walk_snoc: "walk t (p @ [if b then CHR ''1'' else CHR ''0'']) = child (walk t p) b"
  by (cases "walk t p") (simp_all add: walk_append child_def)

lemma encoding_tree_character:
  "encoding_tree (Node c z on w) \<Longrightarrow> (is_leaf (Node c z on w) \<longleftrightarrow> c \<noteq> NOT_A_CHAR)"
  by (auto simp: is_leaf_def split: if_splits)

lemma decodeFile_loop_reference:
  assumes "encoding_tree t"
  shows "ib_bits infile = bits \<Longrightarrow>
         reference_decode t (walk t code) bits sink = Some (rest, sink') \<Longrightarrow>
         decodeFile_loop infile t sink code = Some (Inr (infile\<lparr>ib_bits := rest\<rparr>, sink'))"
proof (induction bits arbitrary: infile code sink)
  case Nil
  then show ?case by simp
next
  case (Cons b bs)
  define code' where "code' = code @ (if b then ''1'' else ''0'')"
  define cursor' where "cursor' = child (walk t code) b"
  define infile' where "infile' = infile\<lparr>ib_bits := bs\<rparr>"
  have rb: "readBit infile = (if b then 1 else 0, infile')"
    unfolding infile'_def using Cons.prems(1) by (rule readBit_bit)
  have str: "code @ integerToString (if b then 1 else 0) = code'"
    by (simp add: code'_def integerToString_bit)
  have w: "walk t code' = cursor'"
    using walk_snoc [of t code b] by (cases b) (simp_all add: code'_def cursor'_def)
  have nn: "cursor' \<noteq> NULL"
    using Cons.prems(2) by (auto simp: cursor'_def Let_def split: if_splits)
  then obtain c z on w where cur: "cursor' = Node c z on w"
    by (cases cursor') auto
  have found: "searchCodeInTree t code' = Inr c"
    by (simp add: searchCodeInTree_walk w cur)
  have "encoding_tree (walk t code')"
    using assms nn unfolding w [symmetric] by (rule walk_encoding_tree)
  then have leaf: "is_leaf cursor' \<longleftrightarrow> c \<noteq> NOT_A_CHAR"
    unfolding w cur by (rule encoding_tree_character)
  have ne: "NOT_A_CHAR \<noteq> PSEUDO_EOF"
    by (simp add: NOT_A_CHAR_def PSEUDO_EOF_def)
  have bits': "ib_bits infile' = bs"
    by (simp add: infile'_def)
  have upd: "infile'\<lparr>ib_bits := rest\<rparr> = infile\<lparr>ib_bits := rest\<rparr>"
    by (simp add: infile'_def)
  have unfold: "decodeFile_loop infile t sink code =
     (if c = PSEUDO_EOF then Some (Inr (infile', sink))
      else if c \<noteq> NOT_A_CHAR then decodeFile_loop infile' t (put sink c) []
      else decodeFile_loop infile' t sink code')"
    by (subst decodeFile_loop.simps) (simp add: rb str found)
  have ref: "reference_decode t (walk t code) (b # bs) sink =
     (if is_leaf cursor'
      then (if c = PSEUDO_EOF then Some (bs, sink)
            else reference_decode t t bs (sink @ [char_of c]))
      else reference_decode t cursor' bs sink)"
    using nn by (simp add: cursor'_def [symmetric] Let_def) (simp add: cur)
  show ?case
  proof (cases "c = PSEUDO_EOF")
    case True
    with leaf ne have "is_leaf cursor'" by simp
    with Cons.prems(2) True have "rest = bs" "sink' = sink"
      unfolding ref by simp_all
    with True show ?thesis
      by (simp add: unfold infile'_def)
  next
    case False
    show ?thesis
    proof (cases "c = NOT_A_CHAR")
      case True
      with leaf have "\<not> is_leaf cursor'" by simp
      with Cons.prems(2) have "reference_decode t (walk t code') bs sink = Some (rest, sink')"
        unfolding ref w by simp
      with bits' have "decodeFile_loop infile' t sink code' = Some (Inr (infile'\<lparr>ib_bits := rest\<rparr>, sink'))"
        by (rule Cons.IH)
      with True False show ?thesis
        by (simp add: unfold upd)
    next
      case nm: False
      with leaf have "is_leaf cursor'" by simp
      with Cons.prems(2) False
      have "reference_decode t (walk t []) bs (put sink c) = Some (rest, sink')"
        unfolding ref by (simp add: put_def)
      with bits' have "decodeFile_loop infile' t (put sink c) [] =
                       Some (Inr (infile'\<lparr>ib_bits := rest\<rparr>, sink'))"
        by (rule Cons.IH)
      with nm False show ?thesis
        by (simp add: unfold upd)
    qed
  qed
qed

text \<open>
  Claim C8. On an encoding tree, whenever the reference decoder reaches the sentinel,
  \<^verbatim>\<open>decodeFile\<close> returns normally, has read the same bits (the same bits are left over in
  the input) and has written the same bytes.
\<close>

theorem decodeFile_refines_reference:
  "encoding_tree t \<Longrightarrow>
   reference_decode t t (ib_bits infile) sink = Some (rest, sink') \<Longrightarrow>
   decodeFile infile t sink = Some (Inr (infile\<lparr>ib_bits := rest\<rparr>, sink'))"
  unfolding decodeFile_def
  using decodeFile_loop_reference [of t infile "ib_bits infile" "[]" sink rest sink']
  by simp

theorem decodeFile_refines_reference_witness:
  "encoding_tree (Node 257 (Node 97 NULL NULL 2)
                    (Node 257 (Node 98 NULL NULL 1) (Node 256 NULL NULL 1) 2) 4) \<and>
   reference_decode
     (Node 257 (Node 97 NULL NULL 2) (Node 257 (Node 98 NULL NULL 1) (Node 256 NULL NULL 1) 2) 4)
     (Node 257 (Node 97 NULL NULL 2) (Node 257 (Node 98 NULL NULL 1) (Node 256 NULL NULL 1) 2) 4)
     (ib_bits \<lparr>ib_file = [], ib_rest = [],
               ib_bits = [False, False, True, False, True, True, False, True]\<rparr>) [] =
     Some ([False, True], ''aab'') \<and>
   decodeFile \<lparr>ib_file = [], ib_rest = [],
               ib_bits = [False, False, True, False, True, True, False, True]\<rparr>
     (Node 257 (Node 97 NULL NULL 2) (Node 257 (Node 98 NULL NULL 1) (Node 256 NULL NULL 1) 2) 4)
     [] =
     Some (Inr (\<lparr>ib_file = [], ib_rest = [], ib_bits = [False, True]\<rparr>, ''aab''))"
proof -
  let ?t = "Node 257 (Node 97 NULL NULL 2)
              (Node 257 (Node 98 NULL NULL 1) (Node 256 NULL NULL 1) 2) 4"
  let ?infile = "\<lparr>ib_file = [], ib_rest = [],
                  ib_bits = [False, False, True, False, True, True, False, True]\<rparr>"
  have h1: "encoding_tree ?t"
    by (simp add: NOT_A_CHAR_def)
  have h2: "reference_decode ?t ?t (ib_bits ?infile) [] = Some ([False, True], ''aab'')"
    by code_simp
  show ?thesis
    using h1 h2 decodeFile_refines_reference [OF h1 h2]
    by simp
qed

section \<open>decodeFile on an exhausted bit source\<close>

lemma decodeFile_loop_exhausted_step:
  "ib_bits infile = [] \<Longrightarrow>
   decodeFile_loop infile t sink code =
     (case searchCodeInTree t (code @ ''-1'') of
        Inl f \<Rightarrow> Some (Inl f)
      | Inr c \<Rightarrow>
          if c = PSEUDO_EOF then Some (Inr (infile, sink))
          else if c \<noteq> NOT_A_CHAR then decodeFile_loop infile t (put sink c) []
          else decodeFile_loop infile t sink (code @ ''-1''))"
  by (subst decodeFile_loop.simps) (simp add: readBit_end integerToString_EOF split: sum.splits)

lemma walk_minus_one:
  "walk (Node c z (Node c1 z1 o1 w1) w) ''-1'' = o1"
  by simp

lemma decodeFile_loop_exhausted:
  assumes "encoding_tree t" and "ib_bits infile = []"
  shows "walk t code \<noteq> NULL \<Longrightarrow> \<not> is_leaf (walk t code) \<Longrightarrow>
         decodeFile_loop infile t sink code =
           (if odd (one_depth (walk t code)) then Some (Inl NullDereference)
            else if one_leaf (walk t code) = PSEUDO_EOF then Some (Inr (infile, sink))
            else decodeFile_loop infile t (put sink (one_leaf (walk t code))) [])"
proof (induction "one_depth (walk t code)" arbitrary: code rule: less_induct)
  case less
  obtain c z on w where n: "walk t code = Node c z on w"
    using less.prems(1) by (cases "walk t code") auto
  have "encoding_tree (Node c z on w)"
    using walk_encoding_tree [OF assms(1) less.prems(1)] by (simp add: n)
  moreover have "\<not> (z = NULL \<and> on = NULL)"
    using less.prems(2) by (simp add: n is_leaf_def)
  ultimately have ch: "c = NOT_A_CHAR" "encoding_tree on" "on \<noteq> NULL"
    using encoding_tree_children by blast+
  obtain c1 z1 o1 w1 where on: "on = Node c1 z1 o1 w1"
    using ch(3) by (cases on) auto
  have w: "walk t (code @ ''-1'') = o1"
    by (simp add: walk_append n on)
  note step = decodeFile_loop_exhausted_step [OF assms(2), of t sink code]
  show ?case
  proof (cases "o1 = NULL")
    case True
    then have "one_depth (walk t code) = 1"
      by (simp add: n on)
    moreover have "searchCodeInTree t (code @ ''-1'') = Inl NullDereference"
      by (simp add: searchCodeInTree_walk w True)
    ultimately show ?thesis
      by (simp add: step)
  next
    case False
    then obtain c2 z2 o2 w2 where o1: "o1 = Node c2 z2 o2 w2"
      by (cases o1) auto
    have "\<not> (z1 = NULL \<and> o1 = NULL)"
      using False by simp
    with ch(2) have et: "encoding_tree o1"
      unfolding on using encoding_tree_children by blast
    have depth: "one_depth (walk t code) = Suc (Suc (one_depth o1))"
      using False by (simp add: n on)
    have leaf: "one_leaf (walk t code) = one_leaf o1"
      using False by (simp add: n on)
    have found: "searchCodeInTree t (code @ ''-1'') = Inr c2"
      by (simp add: searchCodeInTree_walk w o1)
    have ne: "NOT_A_CHAR \<noteq> PSEUDO_EOF"
      by (simp add: NOT_A_CHAR_def PSEUDO_EOF_def)
    show ?thesis
    proof (cases "is_leaf o1")
      case True
      then have "one_depth o1 = 0" "one_leaf o1 = c2"
        by (simp_all add: o1 is_leaf_def)
      moreover have "c2 \<noteq> NOT_A_CHAR"
        using et True encoding_tree_character [of c2 z2 o2 w2] by (simp add: o1)
      ultimately show ?thesis
        by (simp add: step found depth leaf)
    next
      case inner: False
      then have c2: "c2 = NOT_A_CHAR"
        using et encoding_tree_character [of c2 z2 o2 w2] by (simp add: o1)
      have "one_depth (walk t (code @ ''-1'')) < one_depth (walk t code)"
        by (simp add: w depth)
      moreover have "walk t (code @ ''-1'') \<noteq> NULL" "\<not> is_leaf (walk t (code @ ''-1''))"
        using False inner by (simp_all add: w)
      ultimately have "decodeFile_loop infile t sink (code @ ''-1'') =
           (if odd (one_depth (walk t (code @ ''-1''))) then Some (Inl NullDereference)
            else if one_leaf (walk t (code @ ''-1'')) = PSEUDO_EOF then Some (Inr (infile, sink))
            else decodeFile_loop infile t (put sink (one_leaf (walk t (code @ ''-1'')))) [])"
        by (rule less.hyps)
      then show ?thesis
        using ne by (simp add: step found c2 w depth leaf)
    qed
  qed
qed

text \<open>
  Claim C2, refuted. The input ''aaaabbc'' is compressed to 14 bits. Cut after 5 bits, in
  the middle of the code of the first b, the bits read so far lead to a node that is not a
  leaf, and the source is exhausted before \<^verbatim>\<open>PSEUDO_EOF\<close> is reached. \<^verbatim>\<open>decodeFile\<close> signals
  no failure: it returns normally, having written ''aaaa''. On the tree of the input
  ''xxyyyyzzzzzzzz'', which is built without any two equal weights in the queue, the
  stream cut after 4 bits, in the middle of the code of the first y, ends in a null
  dereference.
\<close>

theorem decodeFile_truncated_counterexample:
  "compress (open_file ''aaaabbc'') new_file =
     Inr (\<lparr>ib_file = ''aaaabbc'', ib_rest = [], ib_bits = []\<rparr>,
          \<lparr>ob_text = ''3 a4 b2 c1 '',
             ob_bits = [False, False, False, False, True, False, True, False, True, True, False,
                        True, True, True]\<rparr>) \<and>
   buildEncodingTree [(97, 4), (98, 2), (99, 1), (PSEUDO_EOF, 1)] =
     Inr (Node 257 (Node 97 NULL NULL 4)
            (Node 257 (Node 98 NULL NULL 2)
               (Node 257 (Node 99 NULL NULL 1) (Node 256 NULL NULL 1) 2) 4) 8) \<and>
   searchCodeInTree
     (Node 257 (Node 97 NULL NULL 4)
        (Node 257 (Node 98 NULL NULL 2)
           (Node 257 (Node 99 NULL NULL 1) (Node 256 NULL NULL 1) 2) 4) 8) ''1'' =
     Inr NOT_A_CHAR \<and>
   decodeFile \<lparr>ib_file = ''3 a4 b2 c1 '', ib_rest = [],
               ib_bits = [False, False, False, False, True]\<rparr>
     (Node 257 (Node 97 NULL NULL 4)
        (Node 257 (Node 98 NULL NULL 2)
           (Node 257 (Node 99 NULL NULL 1) (Node 256 NULL NULL 1) 2) 4) 8) [] =
     Some (Inr (\<lparr>ib_file = ''3 a4 b2 c1 '', ib_rest = [], ib_bits = []\<rparr>, ''aaaa'')) \<and>
   buildEncodingTree [(120, 2), (121, 4), (122, 8), (PSEUDO_EOF, 1)] =
     Inr (Node 257
            (Node 257 (Node 257 (Node 256 NULL NULL 1) (Node 120 NULL NULL 2) 3)
               (Node 121 NULL NULL 4) 7)
            (Node 122 NULL NULL 8) 15) \<and>
   decodeFile \<lparr>ib_file = ''3 x2 y4 z8 '', ib_rest = [], ib_bits = [False, False, True, False]\<rparr>
     (Node 257
        (Node 257 (Node 257 (Node 256 NULL NULL 1) (Node 120 NULL NULL 2) 3)
           (Node 121 NULL NULL 4) 7)
        (Node 122 NULL NULL 8) 15) [] =
     Some (Inl NullDereference)"
proof -
  have e: "buildEncodingTree [(120, 2), (121, 4), (122, 8), (PSEUDO_EOF, 1)] =
     Inr (Node 257
            (Node 257 (Node 257 (Node 256 NULL NULL 1) (Node 120 NULL NULL 2) 3)
               (Node 121 NULL NULL 4) 7)
            (Node 122 NULL NULL 8) 15)"
    by code_simp
  have f: "decodeFile \<lparr>ib_file = ''3 x2 y4 z8 '', ib_rest = [], ib_bits = [False, False, True, False]\<rparr>
     (Node 257
        (Node 257 (Node 257 (Node 256 NULL NULL 1) (Node 120 NULL NULL 2) 3)
           (Node 121 NULL NULL 4) 7)
        (Node 122 NULL NULL 8) 15) [] =
     Some (Inl NullDereference)"
    by code_simp
  have a: "compress (open_file ''aaaabbc'') new_file =
     Inr (\<lparr>ib_file = ''aaaabbc'', ib_rest = [], ib_bits = []\<rparr>,
          \<lparr>ob_text = ''3 a4 b2 c1 '',
             ob_bits = [False, False, False, False, True, False, True, False, True, True, False,
                        True, True, True]\<rparr>)"
    by code_simp
  have b: "buildEncodingTree [(97, 4), (98, 2), (99, 1), (PSEUDO_EOF, 1)] =
     Inr (Node 257 (Node 97 NULL NULL 4)
            (Node 257 (Node 98 NULL NULL 2)
               (Node 257 (Node 99 NULL NULL 1) (Node 256 NULL NULL 1) 2) 4) 8)"
    by code_simp
  have c: "searchCodeInTree
     (Node 257 (Node 97 NULL NULL 4)
        (Node 257 (Node 98 NULL NULL 2)
           (Node 257 (Node 99 NULL NULL 1) (Node 256 NULL NULL 1) 2) 4) 8) ''1'' =
     Inr NOT_A_CHAR"
    by (simp add: NOT_A_CHAR_def)
  have d: "decodeFile \<lparr>ib_file = ''3 a4 b2 c1 '', ib_rest = [],
               ib_bits = [False, False, False, False, True]\<rparr>
     (Node 257 (Node 97 NULL NULL 4)
        (Node 257 (Node 98 NULL NULL 2)
           (Node 257 (Node 99 NULL NULL 1) (Node 256 NULL NULL 1) 2) 4) 8) [] =
     Some (Inr (\<lparr>ib_file = ''3 a4 b2 c1 '', ib_rest = [], ib_bits = []\<rparr>, ''aaaa''))"
    by code_simp
  show ?thesis
    using a b c d e f by (intro conjI)
qed

text \<open>
  Claim C2, as amended. \<^verbatim>\<open>decodeFile\<close> has no failure for a truncated stream. When the bit
  source is exhausted and the code read so far leads to a node of the encoding tree that
  is not a leaf, every further \<^verbatim>\<open>readBit\<close> returns -1, whose text "-1" is appended to the code
  and followed by \<^verbatim>\<open>searchCodeInTree\<close> as two steps to the \<^verbatim>\<open>one\<close> child. So when the number
  of \<^verbatim>\<open>one\<close> branches from that node down to a leaf is odd, \<^verbatim>\<open>decodeFile\<close> dereferences the
  null pointer; when it is even and that leaf is \<^verbatim>\<open>PSEUDO_EOF\<close>, \<^verbatim>\<open>decodeFile\<close> returns normally
  with the bytes written so far; when it is even and the leaf is another symbol, the byte
  of that leaf is written and the loop goes on from the root.
\<close>

theorem decodeFile_exhausted_source:
  "encoding_tree t \<Longrightarrow> ib_bits infile = [] \<Longrightarrow>
   walk t code \<noteq> NULL \<Longrightarrow> \<not> is_leaf (walk t code) \<Longrightarrow>
   decodeFile_loop infile t sink code =
     (if odd (one_depth (walk t code)) then Some (Inl NullDereference)
      else if one_leaf (walk t code) = PSEUDO_EOF then Some (Inr (infile, sink))
      else decodeFile_loop infile t (put sink (one_leaf (walk t code))) [])"
  by (rule decodeFile_loop_exhausted)

theorem decodeFile_exhausted_source_witness:
  "encoding_tree (Node 257 (Node 97 NULL NULL 4)
        (Node 257 (Node 98 NULL NULL 2)
           (Node 257 (Node 99 NULL NULL 1) (Node 256 NULL NULL 1) 2) 4) 8) \<and>
   ib_bits \<lparr>ib_file = [], ib_rest = [], ib_bits = []\<rparr> = [] \<and>
   walk (Node 257 (Node 97 NULL NULL 4)
        (Node 257 (Node 98 NULL NULL 2)
           (Node 257 (Node 99 NULL NULL 1) (Node 256 NULL NULL 1) 2) 4) 8) ''1'' \<noteq> NULL \<and>
   \<not> is_leaf (walk (Node 257 (Node 97 NULL NULL 4)
        (Node 257 (Node 98 NULL NULL 2)
           (Node 257 (Node 99 NULL NULL 1) (Node 256 NULL NULL 1) 2) 4) 8) ''1'') \<and>
   decodeFile_loop \<lparr>ib_file = [], ib_rest = [], ib_bits = []\<rparr>
     (Node 257 (Node 97 NULL NULL 4)
        (Node 257 (Node 98 NULL NULL 2)
           (Node 257 (Node 99 NULL NULL 1) (Node 256 NULL NULL 1) 2) 4) 8) ''aaaa'' ''1'' =
     Some (Inr (\<lparr>ib_file = [], ib_rest = [], ib_bits = []\<rparr>, ''aaaa'')) \<and>
   decodeFile_loop \<lparr>ib_file = [], ib_rest = [], ib_bits = []\<rparr>
     (Node 257 (Node 97 NULL NULL 4)
        (Node 257 (Node 98 NULL NULL 2)
           (Node 257 (Node 99 NULL NULL 1) (Node 256 NULL NULL 1) 2) 4) 8) ''aaaa'' [] =
     Some (Inl NullDereference)"
proof -
  let ?t = "Node 257 (Node 97 NULL NULL 4)
        (Node 257 (Node 98 NULL NULL 2)
           (Node 257 (Node 99 NULL NULL 1) (Node 256 NULL NULL 1) 2) 4) 8"
  let ?infile = "\<lparr>ib_file = [], ib_rest = [], ib_bits = []\<rparr>"
  have h1: "encoding_tree ?t"
    by (simp add: NOT_A_CHAR_def)
  have h2: "ib_bits ?infile = []"
    by simp
  have h3: "walk ?t ''1'' \<noteq> NULL"
    by simp
  have h4: "\<not> is_leaf (walk ?t ''1'')"
    by (simp add: is_leaf_def)
  have h5: "walk ?t [] \<noteq> NULL"
    by simp
  have h6: "\<not> is_leaf (walk ?t [])"
    by (simp add: is_leaf_def)
  show ?thesis
    using h1 h2 h3 h4 decodeFile_exhausted_source [OF h1 h2 h3 h4, of "''aaaa''"]
      decodeFile_exhausted_source [OF h1 h2 h5 h6, of "''aaaa''"]
    by (simp add: PSEUDO_EOF_def)
qed

section \<open>A truncated stream on which decodeFile never returns\<close>

lemma exhausted_next:
  assumes "encoding_tree t" and "walk t code \<noteq> NULL" and "\<not> is_leaf (walk t code)"
    and "even (one_depth (walk t code))" and "one_leaf (walk t code) \<noteq> PSEUDO_EOF"
  shows "\<exists>c. searchCodeInTree t (code @ ''-1'') = Inr c \<and> c \<noteq> PSEUDO_EOF \<and>
             (c = NOT_A_CHAR \<longrightarrow>
                walk t (code @ ''-1'') \<noteq> NULL \<and> \<not> is_leaf (walk t (code @ ''-1'')) \<and>
                even (one_depth (walk t (code @ ''-1''))) \<and>
                one_leaf (walk t (code @ ''-1'')) \<noteq> PSEUDO_EOF)"
proof -
  obtain c z on w where n: "walk t code = Node c z on w"
    using assms(2) by (cases "walk t code") auto
  have "encoding_tree (Node c z on w)"
    using walk_encoding_tree [OF assms(1,2)] by (simp add: n)
  moreover have "\<not> (z = NULL \<and> on = NULL)"
    using assms(3) by (simp add: n is_leaf_def)
  ultimately have ch: "encoding_tree on" "on \<noteq> NULL"
    using encoding_tree_children by blast+
  obtain c1 z1 o1 w1 where on: "on = Node c1 z1 o1 w1"
    using ch(2) by (cases on) auto
  have o1_not_NULL: "o1 \<noteq> NULL"
    using assms(4) by (auto simp: n on)
  then obtain c2 z2 o2 w2 where o1: "o1 = Node c2 z2 o2 w2"
    by (cases o1) auto
  have "\<not> (z1 = NULL \<and> o1 = NULL)"
    using o1_not_NULL by simp
  with ch(1) have et: "encoding_tree o1"
    unfolding on using encoding_tree_children by blast
  have w: "walk t (code @ ''-1'') = o1"
    by (simp add: walk_append n on)
  have found: "searchCodeInTree t (code @ ''-1'') = Inr c2"
    by (simp add: searchCodeInTree_walk w o1)
  have depth: "one_depth (walk t code) = Suc (Suc (one_depth o1))"
    using o1_not_NULL by (simp add: n on)
  have leaf: "one_leaf (walk t code) = one_leaf o1"
    using o1_not_NULL by (simp add: n on)
  have ne: "NOT_A_CHAR \<noteq> PSEUDO_EOF"
    by (simp add: NOT_A_CHAR_def PSEUDO_EOF_def)
  show ?thesis
  proof (cases "is_leaf o1")
    case True
    then have "one_leaf o1 = c2"
      by (simp add: o1 is_leaf_def)
    moreover have "c2 \<noteq> NOT_A_CHAR"
      using et True encoding_tree_character [of c2 z2 o2 w2] by (simp add: o1)
    ultimately show ?thesis
      using assms(5) by (simp add: found leaf)
  next
    case False
    then have "c2 = NOT_A_CHAR"
      using et encoding_tree_character [of c2 z2 o2 w2] by (simp add: o1)
    with False o1_not_NULL assms(4,5) ne show ?thesis
      by (simp add: found w depth leaf)
  qed
qed

lemma decodeFile_loop_no_result:
  assumes "encoding_tree t" and "\<not> is_leaf t"
    and "even (one_depth t)" and "one_leaf t \<noteq> PSEUDO_EOF"
    and run: "decodeFile_loop infile t' sink code = Some y"
  shows "\<not> (t' = t \<and> ib_bits infile = [] \<and> walk t code \<noteq> NULL \<and> \<not> is_leaf (walk t code) \<and>
            even (one_depth (walk t code)) \<and> one_leaf (walk t code) \<noteq> PSEUDO_EOF)"
proof (rule decodeFile_loop.raw_induct
    [where P = "\<lambda>infile t' sink code y.
       \<not> (t' = t \<and> ib_bits infile = [] \<and> walk t code \<noteq> NULL \<and> \<not> is_leaf (walk t code) \<and>
          even (one_depth (walk t code)) \<and> one_leaf (walk t code) \<noteq> PSEUDO_EOF)", OF _ run])
  fix f infile t' sink code y
  assume ih: "\<And>infile t' sink code y. f infile t' sink code = Some y \<Longrightarrow>
       \<not> (t' = t \<and> ib_bits infile = [] \<and> walk t code \<noteq> NULL \<and> \<not> is_leaf (walk t code) \<and>
          even (one_depth (walk t code)) \<and> one_leaf (walk t code) \<noteq> PSEUDO_EOF)"
    and body: "(case readBit infile of
        (b, infile') \<Rightarrow>
          (case searchCodeInTree t' (code @ integerToString b) of
             Inl f \<Rightarrow> Some (Inl f)
           | Inr chr \<Rightarrow>
               if chr = PSEUDO_EOF then Some (Inr (infile', sink))
               else if chr \<noteq> NOT_A_CHAR then f infile' t' (put sink chr) []
               else f infile' t' sink (code @ integerToString b))) = Some y"
  show "\<not> (t' = t \<and> ib_bits infile = [] \<and> walk t code \<noteq> NULL \<and> \<not> is_leaf (walk t code) \<and>
          even (one_depth (walk t code)) \<and> one_leaf (walk t code) \<noteq> PSEUDO_EOF)"
  proof
    assume good: "t' = t \<and> ib_bits infile = [] \<and> walk t code \<noteq> NULL \<and>
      \<not> is_leaf (walk t code) \<and> even (one_depth (walk t code)) \<and>
      one_leaf (walk t code) \<noteq> PSEUDO_EOF"
    then obtain c where c: "searchCodeInTree t (code @ ''-1'') = Inr c" "c \<noteq> PSEUDO_EOF"
      "c = NOT_A_CHAR \<longrightarrow>
         walk t (code @ ''-1'') \<noteq> NULL \<and> \<not> is_leaf (walk t (code @ ''-1'')) \<and>
         even (one_depth (walk t (code @ ''-1''))) \<and>
         one_leaf (walk t (code @ ''-1'')) \<noteq> PSEUDO_EOF"
      using exhausted_next [OF assms(1), of code] by blast
    have rb: "readBit infile = (EOF, infile)"
      using good by (simp add: readBit_end)
    have root: "walk t [] \<noteq> NULL"
      using assms(1) by (simp add: encoding_tree_not_NULL)
    show False
    proof (cases "c = NOT_A_CHAR")
      case True
      with body c(1,2) good have "f infile t sink (code @ ''-1'') = Some y"
        by (simp add: rb integerToString_EOF)
      then have "\<not> (t = t \<and> ib_bits infile = [] \<and> walk t (code @ ''-1'') \<noteq> NULL \<and>
            \<not> is_leaf (walk t (code @ ''-1'')) \<and>
            even (one_depth (walk t (code @ ''-1''))) \<and>
            one_leaf (walk t (code @ ''-1'')) \<noteq> PSEUDO_EOF)"
        by (rule ih)
      with True c(3) good show False
        by simp
    next
      case False
      with body c(1,2) good have "f infile t (put sink c) [] = Some y"
        by (simp add: rb integerToString_EOF)
      then have "\<not> (t = t \<and> ib_bits infile = [] \<and> walk t [] \<noteq> NULL \<and>
            \<not> is_leaf (walk t []) \<and> even (one_depth (walk t [])) \<and>
            one_leaf (walk t []) \<noteq> PSEUDO_EOF)"
        by (rule ih)
      with good root assms(2-4) show False
        by simp
    qed
  qed
qed

lemma decodeFile_runs_forever:
  assumes "encoding_tree t" and "\<not> is_leaf t"
    and "even (one_depth t)" and "one_leaf t \<noteq> PSEUDO_EOF"
    and "ib_bits infile = []"
  shows "decodeFile infile t sink = None"
proof (cases "decodeFile infile t sink")
  case None
  then show ?thesis .
next
  case (Some y)
  then have "decodeFile_loop infile t sink [] = Some y"
    by (simp add: decodeFile_def)
  from decodeFile_loop_no_result [OF assms(1-4) this] assms show ?thesis
    by (simp add: encoding_tree_not_NULL)
qed

text \<open>
  The file with the header of the input ''xxyyyyzzzzzz'' and no body. No two weights are
  equal while the tree is built, so the tree does not depend on the order of the queue
  among equal priorities: z is the \<^verbatim>\<open>zero\<close> child of the root, and two \<^verbatim>\<open>one\<close> branches lead
  from the root to the leaf of y. \<^verbatim>\<open>decompress\<close> never returns on it: it writes the byte y
  again and again.
\<close>

lemma decompress_runs_forever:
  "decompress \<lparr>ib_file = ''3 x2 y4 z6 '', ib_rest = ''3 x2 y4 z6 '', ib_bits = []\<rparr> [] = None"
proof -
  let ?t = "Node 257 (Node 122 NULL NULL 6)
              (Node 257 (Node 257 (Node 256 NULL NULL 1) (Node 120 NULL NULL 2) 3)
                 (Node 121 NULL NULL 4) 7) 13"
  let ?m = "[(120, 2), (121, 4), (122, 6), (PSEUDO_EOF, 1 :: cint)]"
  have m: "header_format ?m = ''3 x2 y4 z6 ''"
    by code_simp
  have "readFileHeader \<lparr>ib_file = ''3 x2 y4 z6 '', ib_rest = header_format ?m, ib_bits = []\<rparr> =
        Inr (?m, \<lparr>ib_file = ''3 x2 y4 z6 '', ib_rest = [], ib_bits = []\<rparr>)"
    by (rule readFileHeader_header_format) (simp_all add: wf_map_def PSEUDO_EOF_def)
  then have rd: "readFileHeader \<lparr>ib_file = ''3 x2 y4 z6 '', ib_rest = ''3 x2 y4 z6 '', ib_bits = []\<rparr> =
        Inr (?m, \<lparr>ib_file = ''3 x2 y4 z6 '', ib_rest = [], ib_bits = []\<rparr>)"
    by (simp only: m)
  have b: "buildEncodingTree ?m = Inr ?t"
    by code_simp
  have "decodeFile \<lparr>ib_file = ''3 x2 y4 z6 '', ib_rest = [], ib_bits = []\<rparr> ?t [] = None"
    by (rule decodeFile_runs_forever)
       (simp_all add: NOT_A_CHAR_def PSEUDO_EOF_def is_leaf_def)
  then show ?thesis
    by (simp add: decompress_def rd b)
qed

end
